theory Spec2Isabelle
  imports Complex_Main "HOL-Library.Signed_Division" "HOL-Library.Multiset"
begin

unbundle bit_operations_syntax

section \<open>Conventions of the embedding\<close>

text \<open>
  The kernels of \<^verbatim>\<open>apply_gate_kernels.cc\<close> and \<^verbatim>\<open>transpose_state.cc\<close> work on raw
  buffers (\<^verbatim>\<open>T*\<close>) with \<^verbatim>\<open>int64\<close> index arithmetic. A buffer is a list; the element
  type \<^verbatim>\<open>T\<close> (complex64 or complex128) is \<^typ>\<open>complex\<close> with exact arithmetic, so rounding
  is outside the model. Every \<^verbatim>\<open>int\<close>, \<^verbatim>\<open>int32\<close> and \<^verbatim>\<open>int64\<close> of the source is an
  \<^typ>\<open>int\<close>: all quantities are bounded by \<open>2 ^ nqubits\<close>, which fits \<^verbatim>\<open>int64\<close> whenever
  a buffer of that many amplitudes exists. What C++ leaves undefined (an access outside a
  buffer, a division by zero, a shift by a negative amount) is the result \<open>None\<close>.
\<close>

definition in_range :: "'a list \<Rightarrow> int \<Rightarrow> bool" where
  "in_range xs i \<longleftrightarrow> 0 \<le> i \<and> i < int (length xs)"

text \<open>\<^verbatim>\<open>(int64) std::pow(2, e)\<close>: for a negative exponent the double lies strictly between
  0 and 1 and the conversion truncates it to 0.\<close>

definition pow2 :: "int \<Rightarrow> int" where
  "pow2 e = (if e < 0 then 0 else 2 ^ nat e)"

text \<open>\<^verbatim>\<open>(int64) 1 << e\<close>.\<close>

definition shl1 :: "int \<Rightarrow> int option" where
  "shl1 e = (if e < 0 then None else Some (push_bit (nat e) 1))"

text \<open>A counted \<^verbatim>\<open>for\<close> loop over the listed values of its variable; a body that faults
  ends the run.\<close>

fun for_loop :: "'i list \<Rightarrow> ('i \<Rightarrow> 's \<Rightarrow> 's option) \<Rightarrow> 's \<Rightarrow> 's option" where
  "for_loop [] body s = Some s"
| "for_loop (i # is) body s =
     (case body i s of None \<Rightarrow> None | Some s' \<Rightarrow> for_loop is body s')"

section \<open>ApplyGate (\<^verbatim>\<open>apply_gate_kernels.cc\<close>)\<close>

text \<open>The gate is the row-major 2x2 matrix \<^verbatim>\<open>gate[0..3]\<close>.\<close>

type_synonym gate = "complex \<times> complex \<times> complex \<times> complex"

text \<open>Lines 23-29: the loop over \<^verbatim>\<open>controls\<close> accumulating \<^verbatim>\<open>cktot\<close> and the
  \<^verbatim>\<open>std::set<int64> cks\<close>, kept as the ascending duplicate-free list the set iterates in.\<close>

fun control_loop :: "int \<Rightarrow> int list \<Rightarrow> int \<times> int list \<Rightarrow> int \<times> int list" where
  "control_loop nqubits [] (cktot, cks) = (cktot, cks)"
| "control_loop nqubits (c # controls) (cktot, cks) =
     (let ck = pow2 (nqubits - c - 1)
      in control_loop nqubits controls (cktot + ck, insort_insert ck cks))"

text \<open>Lines 33-39: the scan of \<^verbatim>\<open>cks\<close> with its \<^verbatim>\<open>break\<close>. The index \<open>i\<close> is never
  negative and a weight is never negative, so the truncating \<^verbatim>\<open>/\<close> and \<^verbatim>\<open>%\<close> of C++
  agree with \<open>div\<close> and \<open>mod\<close>; a zero weight is a division by zero.\<close>

fun check_controls :: "int \<Rightarrow> int list \<Rightarrow> bool option" where
  "check_controls i [] = Some True"
| "check_controls i (q # qs) =
     (if q = 0 then None
      else if (i div q) mod 2 \<noteq> 0 then Some False
      else check_controls i qs)"

text \<open>Lines 42-46: the update of one amplitude pair. The second assignment reads
  \<^verbatim>\<open>state[i2]\<close> from the buffer already changed at \<^verbatim>\<open>i1\<close>.\<close>

definition apply_pair :: "gate \<Rightarrow> int \<Rightarrow> int \<Rightarrow> complex list \<Rightarrow> complex list option" where
  "apply_pair gate i1 i2 state =
     (case gate of (g0, g1, g2, g3) \<Rightarrow>
        if in_range state i1 \<and> in_range state i2 then
          let buffer = state ! nat i1;
              state1 = state[nat i1 := g0 * state ! nat i1 + g1 * state ! nat i2];
              state2 = state1[nat i2 := g2 * buffer + g3 * state1 ! nat i2]
          in Some state2
        else None)"

text \<open>Lines 31-49: the lambda \<^verbatim>\<open>DoWork(g, w)\<close>. It never reads \<open>w\<close>.\<close>

definition DoWork_body :: "gate \<Rightarrow> int \<Rightarrow> int list \<Rightarrow> int \<Rightarrow> int \<Rightarrow> complex list \<Rightarrow> complex list option" where
  "DoWork_body gate tk cks cktot i state =
     (case check_controls i cks of
        None \<Rightarrow> None
      | Some apply \<Rightarrow>
          if apply then
            let i1 = i + cktot; i2 = i1 + tk in apply_pair gate i1 i2 state
          else Some state)"

definition DoWork :: "gate \<Rightarrow> int \<Rightarrow> int list \<Rightarrow> int \<Rightarrow> int \<Rightarrow> int \<Rightarrow> complex list \<Rightarrow> complex list option" where
  "DoWork gate tk cks cktot g w state =
     for_loop [g..g + tk - 1] (DoWork_body gate tk cks cktot) state"

text \<open>
  Modelled from the spec: \<^verbatim>\<open>ThreadPool::ParallelFor\<close> with the scheduling strategy
  \<^verbatim>\<open>kFixedBlockSize\<close> belongs to the hosting runtime and is not part of the sources. The
  specification has the index space enumerated in consecutive windows of the block size,
  one call of the work function per window, with the window's first index and its limit;
  a range that is a single block, or a block size that is not positive, is one call.
  The windows are run one after the other here: the pairs touched by different windows
  are disjoint, as proved below, so the order of the workers does not matter. The work
  function of ApplyGate relies on this dispatch, since it handles \<open>tk\<close> indices from the
  first index of its window whatever the limit is.
\<close>

definition fixed_blocks :: "int \<Rightarrow> int \<Rightarrow> (int \<times> int) list" where
  "fixed_blocks total_size block_size =
     (if block_size \<le> 0 \<or> total_size \<le> block_size then [(0, total_size)]
      else map (\<lambda>b. (b * block_size, min ((b + 1) * block_size) total_size))
             [0..(total_size - 1) div block_size])"

definition ParallelFor :: "int \<Rightarrow> int \<Rightarrow> (int \<Rightarrow> int \<Rightarrow> 's \<Rightarrow> 's option) \<Rightarrow> 's \<Rightarrow> 's option" where
  "ParallelFor total_size block_size fn s =
     for_loop (fixed_blocks total_size block_size) (\<lambda>(start, limit). fn start limit) s"

text \<open>Lines 17-56: \<^verbatim>\<open>ApplyGateFunctor<CPUDevice, T>::operator()\<close>; \<^verbatim>\<open>ncontrols\<close> is the
  length of \<open>controls\<close>.\<close>

definition ApplyGateFunctor :: "complex list \<Rightarrow> gate \<Rightarrow> int \<Rightarrow> int \<Rightarrow> int list \<Rightarrow> complex list option" where
  "ApplyGateFunctor state gate nqubits target controls =
     (let nstates = pow2 nqubits;
          tk = pow2 (nqubits - target - 1);
          (cktot, cks) = control_loop nqubits controls (0, [])
      in ParallelFor nstates (2 * tk) (DoWork gate tk cks cktot) state)"

text \<open>The values of \<open>i\<close> at which line 41 finds \<^verbatim>\<open>apply\<close> true, in the order of the run:
  the same loops as \<open>ApplyGateFunctor\<close> without the update of the state.\<close>

definition eligible_bases :: "int \<Rightarrow> int \<Rightarrow> int list \<Rightarrow> int list" where
  "eligible_bases nqubits target controls =
     (let nstates = pow2 nqubits;
          tk = pow2 (nqubits - target - 1);
          (cktot, cks) = control_loop nqubits controls (0, [])
      in concat (map (\<lambda>(g, w). filter (\<lambda>i. check_controls i cks = Some True) [g..g + tk - 1])
                   (fixed_blocks nstates (2 * tk))))"

section \<open>TransposeState and SwapPieces (\<^verbatim>\<open>transpose_state.cc\<close>)\<close>

text \<open>Lines 19-21: one round of the loop filling \<^verbatim>\<open>qubit_exponents\<close>.\<close>

definition exponent_body :: "int \<Rightarrow> int list \<Rightarrow> int \<Rightarrow> int list \<Rightarrow> int list option" where
  "exponent_body nqubits qubit_order q qubit_exponents =
     (if in_range qubit_order (nqubits - q - 1) then
        case shl1 (nqubits - qubit_order ! nat (nqubits - q - 1) - 1) of
          None \<Rightarrow> None
        | Some e \<Rightarrow> Some (qubit_exponents[nat q := e])
      else None)"

text \<open>Lines 25-28: the index \<open>k\<close> accumulated from the bits of \<open>g\<close>; \<open>q\<close> stays below the size
  of \<^verbatim>\<open>qubit_exponents\<close>.\<close>

definition source_index_loop :: "int \<Rightarrow> int list \<Rightarrow> int \<Rightarrow> int" where
  "source_index_loop nqubits qubit_exponents g =
     fold (\<lambda>q k. if drop_bit (nat q) g mod 2 \<noteq> 0 then k + qubit_exponents ! nat q else k)
       [0..nqubits - 1] 0"

text \<open>Line 29: the copy of one amplitude. \<open>k\<close> is not negative, so \<^verbatim>\<open>/\<close> and \<^verbatim>\<open>%\<close> are the
  truncating \<open>sdiv\<close> and \<open>smod\<close>.\<close>

definition transpose_body :: "'a list list \<Rightarrow> int \<Rightarrow> int \<Rightarrow> int list \<Rightarrow> int \<Rightarrow> 'a list \<Rightarrow> 'a list option" where
  "transpose_body state nqubits npiece qubit_exponents g transposed_state =
     (let k = source_index_loop nqubits qubit_exponents g in
      if npiece = 0 then None
      else if in_range state (k sdiv npiece)
            \<and> in_range (state ! nat (k sdiv npiece)) (k smod npiece)
            \<and> in_range transposed_state g
      then Some (transposed_state[nat g := state ! nat (k sdiv npiece) ! nat (k smod npiece)])
      else None)"

text \<open>Lines 13-31: \<^verbatim>\<open>TransposeStateFunctor<CPUDevice, T>::operator()\<close>. The rounds of the
  \<^verbatim>\<open>omp parallel for\<close> write different cells and read only \<open>state\<close>; they are run in
  ascending order.\<close>

definition TransposeStateFunctor :: "'a list list \<Rightarrow> 'a list \<Rightarrow> int \<Rightarrow> int \<Rightarrow> int list \<Rightarrow> 'a list option" where
  "TransposeStateFunctor state transposed_state nqubits ndevices qubit_order =
     (case shl1 nqubits of
        None \<Rightarrow> None
      | Some nstates \<Rightarrow>
          if ndevices = 0 then None
          else
            let npiece = nstates sdiv ndevices in
            case for_loop [0..nqubits - 1] (exponent_body nqubits qubit_order)
                   (replicate (nat nqubits) 0) of
              None \<Rightarrow> None
            | Some qubit_exponents \<Rightarrow>
                for_loop [0..nstates - 1]
                  (transpose_body state nqubits npiece qubit_exponents) transposed_state)"

text \<open>Line 45: the local index with a zero bit put back at position \<open>m\<close>.\<close>

definition swap_index :: "int \<Rightarrow> int \<Rightarrow> int \<Rightarrow> int" where
  "swap_index m tk g = push_bit (nat (m + 1)) (drop_bit (nat m) g) + (g AND (tk - 1))"

text \<open>Line 46: \<^verbatim>\<open>std::swap(piece0[j], piece1[i])\<close> on two separate buffers.\<close>

definition swap_entries :: "int \<Rightarrow> int \<Rightarrow> 'a list \<times> 'a list \<Rightarrow> ('a list \<times> 'a list) option" where
  "swap_entries j i pieces =
     (case pieces of (piece0, piece1) \<Rightarrow>
        if in_range piece0 j \<and> in_range piece1 i
        then Some (piece0[nat j := piece1 ! nat i], piece1[nat i := piece0 ! nat j])
        else None)"

text \<open>Lines 37-48: \<^verbatim>\<open>SwapPiecesFunctor<CPUDevice, T>::operator()\<close>, its rounds in ascending
  order.\<close>

definition SwapPiecesFunctor :: "'a list \<Rightarrow> 'a list \<Rightarrow> int \<Rightarrow> int \<Rightarrow> ('a list \<times> 'a list) option" where
  "SwapPiecesFunctor piece0 piece1 new_global nqubits =
     (let m = nqubits - new_global - 1 in
      case shl1 m of
        None \<Rightarrow> None
      | Some tk \<Rightarrow>
          (case shl1 (nqubits - 1) of
             None \<Rightarrow> None
           | Some nstates \<Rightarrow>
               for_loop [0..nstates - 1]
                 (\<lambda>g. let i = swap_index m tk g in swap_entries (i + tk) i)
                 (piece0, piece1)))"

section \<open>The operator wrappers\<close>

text \<open>
  \<^verbatim>\<open>Compute\<close> is a template over the device; \<^verbatim>\<open>OP_REQUIRES\<close> records the status in the
  context and returns when its condition is false. The outcome of a call is the status,
  the input buffers as the call leaves them, and the output tensors it has set. The
  functor for \<^verbatim>\<open>GPUDevice\<close> is declared \<^verbatim>\<open>extern\<close> and defined nowhere in the sources:
  it is a parameter of the model.
\<close>

datatype device = CPUDevice | GPUDevice

datatype status = OK | Unimplemented string

record ('b, 'o) outcome =
  op_status :: status
  buffers :: 'b
  outputs :: "'o option"

text \<open>\<^verbatim>\<open>ApplyGateOp::Compute\<close>, lines 64-87 of \<^verbatim>\<open>apply_gate_kernels.cc\<close>.\<close>

definition ApplyGateOp_Compute ::
  "(complex list \<Rightarrow> gate \<Rightarrow> int \<Rightarrow> int \<Rightarrow> int list \<Rightarrow> complex list option) \<Rightarrow> device \<Rightarrow>
   complex list \<Rightarrow> gate \<Rightarrow> int \<Rightarrow> int \<Rightarrow> int list \<Rightarrow> (complex list, complex list) outcome option" where
  "ApplyGateOp_Compute gpu_functor dev state gate nqubits target controls =
     (if dev \<noteq> CPUDevice then
        Some \<lparr>op_status = Unimplemented ''ApplyGate operator not implemented for GPU.'',
              buffers = state, outputs = None\<rparr>
      else
        case (case dev of CPUDevice \<Rightarrow> ApplyGateFunctor | GPUDevice \<Rightarrow> gpu_functor)
               state gate nqubits target controls of
          None \<Rightarrow> None
        | Some state' \<Rightarrow> Some \<lparr>op_status = OK, buffers = state', outputs = Some state'\<rparr>)"

text \<open>\<^verbatim>\<open>TransposeStateOp::Compute\<close>, lines 63-81 of \<^verbatim>\<open>transpose_state.cc\<close>.\<close>

definition TransposeStateOp_Compute ::
  "('a list list \<Rightarrow> 'a list \<Rightarrow> int \<Rightarrow> int \<Rightarrow> int list \<Rightarrow> 'a list option) \<Rightarrow> device \<Rightarrow>
   'a list list \<Rightarrow> 'a list \<Rightarrow> int \<Rightarrow> int \<Rightarrow> int list \<Rightarrow>
   ('a list list \<times> 'a list, 'a list) outcome option" where
  "TransposeStateOp_Compute gpu_functor dev state transposed_state nqubits ndevices qubit_order =
     (if dev \<noteq> CPUDevice then
        Some \<lparr>op_status = Unimplemented ''TransposeStateOp operator not implemented for GPU.'',
              buffers = (state, transposed_state), outputs = None\<rparr>
      else
        case (case dev of CPUDevice \<Rightarrow> TransposeStateFunctor | GPUDevice \<Rightarrow> gpu_functor)
               state transposed_state nqubits ndevices qubit_order of
          None \<Rightarrow> None
        | Some t' \<Rightarrow> Some \<lparr>op_status = OK, buffers = (state, t'), outputs = Some t'\<rparr>)"

text \<open>\<^verbatim>\<open>SwapPiecesOp::Compute\<close>, lines 100-118 of \<^verbatim>\<open>transpose_state.cc\<close>; the attribute
  \<^verbatim>\<open>target_\<close> is passed as \<^verbatim>\<open>new_global\<close>.\<close>

definition SwapPiecesOp_Compute ::
  "('a list \<Rightarrow> 'a list \<Rightarrow> int \<Rightarrow> int \<Rightarrow> ('a list \<times> 'a list) option) \<Rightarrow> device \<Rightarrow>
   'a list \<Rightarrow> 'a list \<Rightarrow> int \<Rightarrow> int \<Rightarrow> ('a list \<times> 'a list, 'a list \<times> 'a list) outcome option" where
  "SwapPiecesOp_Compute gpu_functor dev piece0 piece1 target nqubits =
     (if dev \<noteq> CPUDevice then
        Some \<lparr>op_status = Unimplemented ''SwapPiecesOp operator not implemented for GPU.'',
              buffers = (piece0, piece1), outputs = None\<rparr>
      else
        case (case dev of CPUDevice \<Rightarrow> SwapPiecesFunctor | GPUDevice \<Rightarrow> gpu_functor)
               piece0 piece1 target nqubits of
          None \<Rightarrow> None
        | Some ps \<Rightarrow> Some \<lparr>op_status = OK, buffers = ps, outputs = Some ps\<rparr>)"

section \<open>Vocabulary of the specification\<close>

text \<open>Index bit \<open>q\<close>, counted from the most significant of the \<open>nqubits\<close> bits, is the value
  of qubit \<open>q\<close> in the basis state \<open>i\<close>.\<close>

definition qubit_bit :: "int \<Rightarrow> int \<Rightarrow> int \<Rightarrow> bool" where
  "qubit_bit nqubits q i \<longleftrightarrow> odd (i div 2 ^ nat (nqubits - q - 1))"

text \<open>A basis index pair: two indices of the register that differ only in the bit of the
  target qubit, the first with that bit 0.\<close>

definition basis_pair :: "int \<Rightarrow> int \<Rightarrow> int \<Rightarrow> int \<Rightarrow> bool" where
  "basis_pair nqubits target i1 i2 \<longleftrightarrow>
     0 \<le> i1 \<and> i1 < 2 ^ nat nqubits \<and> 0 \<le> i2 \<and> i2 < 2 ^ nat nqubits \<and>
     \<not> qubit_bit nqubits target i1 \<and> qubit_bit nqubits target i2 \<and>
     (\<forall>q\<in>set [0..nqubits - 1]. q \<noteq> target \<longrightarrow> qubit_bit nqubits q i1 = qubit_bit nqubits q i2)"

text \<open>A gate is unitary when the product with its conjugate transpose is the identity.\<close>

definition dagger :: "gate \<Rightarrow> gate" where
  "dagger gate = (case gate of (g0, g1, g2, g3) \<Rightarrow> (cnj g0, cnj g2, cnj g1, cnj g3))"

definition unitary :: "gate \<Rightarrow> bool" where
  "unitary gate =
     (case gate of (g0, g1, g2, g3) \<Rightarrow>
        g0 * cnj g0 + g1 * cnj g1 = 1 \<and> g0 * cnj g2 + g1 * cnj g3 = 0 \<and>
        g2 * cnj g0 + g3 * cnj g1 = 0 \<and> g2 * cnj g2 + g3 * cnj g3 = 1)"

definition norm_sq :: "complex list \<Rightarrow> real" where
  "norm_sq state = (\<Sum>a\<leftarrow>state. (cmod a)\<^sup>2)"

text \<open>The index \<open>k\<close> of section 4.2: the sum of the weights \<open>2 ^ (n - qubit_order[n-q-1] - 1)\<close>
  over the bit positions \<open>q\<close> set in \<open>g\<close>.\<close>

definition source_index :: "int \<Rightarrow> int list \<Rightarrow> int \<Rightarrow> int" where
  "source_index nqubits qubit_order g =
     (\<Sum>q\<leftarrow>[0..nqubits - 1].
        if odd (g div 2 ^ nat q)
        then 2 ^ nat (nqubits - qubit_order ! nat (nqubits - q - 1) - 1) else 0)"

section \<open>Loops and the update of one pair\<close>

lemma for_loop_append:
  "for_loop (xs @ ys) body s =
     (case for_loop xs body s of None \<Rightarrow> None | Some s' \<Rightarrow> for_loop ys body s')"
  by (induction xs arbitrary: s) (auto split: option.splits)

lemma for_loop_concat:
  "for_loop gs (\<lambda>g. for_loop (h g) body) s = for_loop (concat (map h gs)) body s"
  by (induction gs arbitrary: s) (auto simp: for_loop_append split: option.splits)

lemma for_loop_cong:
  "(\<And>i s. i \<in> set is \<Longrightarrow> body i s = body' i s) \<Longrightarrow> for_loop is body s = for_loop is body' s"
  by (induction "is" arbitrary: s) (auto split: option.splits)

lemma for_loop_filter:
  "(\<And>i s. i \<in> set is \<Longrightarrow> \<not> P i \<Longrightarrow> body i s = Some s) \<Longrightarrow>
   for_loop is body s = for_loop (filter P is) body s"
  by (induction "is" arbitrary: s) (auto split: option.splits)

lemma for_loop_map:
  "for_loop (map f xs) body s = for_loop xs (\<lambda>x. body (f x)) s"
  by (induction xs arbitrary: s) (auto split: option.splits)

lemma apply_pair_Some:
  assumes "in_range s i1" "in_range s i2" "i1 \<noteq> i2"
  shows "apply_pair (g0, g1, g2, g3) i1 i2 s =
           Some (s[nat i1 := g0 * s ! nat i1 + g1 * s ! nat i2,
                   nat i2 := g2 * s ! nat i1 + g3 * s ! nat i2])"
proof -
  from assms have "nat i1 \<noteq> nat i2" by (auto simp: in_range_def)
  with assms show ?thesis by (simp add: apply_pair_def Let_def)
qed

lemma pairs_loop:
  assumes "distinct (map fst ps @ map snd ps)"
      and "\<forall>(a, b) \<in> set ps. in_range s a \<and> in_range s b"
  shows "\<exists>s'. for_loop ps (\<lambda>(i1, i2). apply_pair (g0, g1, g2, g3) i1 i2) s = Some s'
            \<and> length s' = length s
            \<and> (\<forall>(a, b) \<in> set ps. s' ! nat a = g0 * s ! nat a + g1 * s ! nat b
                                \<and> s' ! nat b = g2 * s ! nat a + g3 * s ! nat b)
            \<and> (\<forall>j. 0 \<le> j \<and> j \<notin> fst ` set ps \<and> j \<notin> snd ` set ps \<longrightarrow> s' ! nat j = s ! nat j)"
  using assms
proof (induction ps arbitrary: s)
  case Nil
  then show ?case by simp
next
  case (Cons p ps)
  obtain a b where p: "p = (a, b)" by (cases p)
  from Cons.prems p have ab: "in_range s a" "in_range s b" "a \<noteq> b" by auto
  define s1 where "s1 = s[nat a := g0 * s ! nat a + g1 * s ! nat b,
                          nat b := g2 * s ! nat a + g3 * s ! nat b]"
  have step: "apply_pair (g0, g1, g2, g3) a b s = Some s1"
    unfolding s1_def by (rule apply_pair_Some [OF ab])
  have len1: "length s1 = length s" by (simp add: s1_def)
  have nonneg: "0 \<le> a" "0 \<le> b" using ab by (auto simp: in_range_def)
  have other: "s1 ! nat j = s ! nat j" if "0 \<le> j" "j \<noteq> a" "j \<noteq> b" for j
    using that nonneg by (simp add: s1_def)
  have s1a: "s1 ! nat a = g0 * s ! nat a + g1 * s ! nat b"
    using ab nonneg by (simp add: s1_def in_range_def)
  have s1b: "s1 ! nat b = g2 * s ! nat a + g3 * s ! nat b"
    using ab nonneg by (simp add: s1_def in_range_def)
  have d: "distinct (map fst ps @ map snd ps)" using Cons.prems(1) by auto
  have r: "\<forall>(a, b) \<in> set ps. in_range s1 a \<and> in_range s1 b"
    using Cons.prems(2) by (auto simp: in_range_def len1)
  from Cons.IH [OF d r] obtain s' where
    run: "for_loop ps (\<lambda>(i1, i2). apply_pair (g0, g1, g2, g3) i1 i2) s1 = Some s'"
    and len: "length s' = length s1"
    and prs: "\<forall>(a, b) \<in> set ps. s' ! nat a = g0 * s1 ! nat a + g1 * s1 ! nat b
                                \<and> s' ! nat b = g2 * s1 ! nat a + g3 * s1 ! nat b"
    and rest: "\<forall>j. 0 \<le> j \<and> j \<notin> fst ` set ps \<and> j \<notin> snd ` set ps \<longrightarrow> s' ! nat j = s1 ! nat j"
    by blast
  have fresh: "a \<notin> fst ` set ps" "a \<notin> snd ` set ps" "b \<notin> fst ` set ps" "b \<notin> snd ` set ps"
    using Cons.prems(1) p by auto
  have "for_loop (p # ps) (\<lambda>(i1, i2). apply_pair (g0, g1, g2, g3) i1 i2) s = Some s'"
    using step run p by simp
  moreover have "length s' = length s" using len len1 by simp
  moreover have "s' ! nat a = g0 * s ! nat a + g1 * s ! nat b"
    using rest fresh nonneg s1a by simp
  moreover have "s' ! nat b = g2 * s ! nat a + g3 * s ! nat b"
    using rest fresh nonneg s1b by simp
  moreover have "s' ! nat x = g0 * s ! nat x + g1 * s ! nat y
               \<and> s' ! nat y = g2 * s ! nat x + g3 * s ! nat y" if "(x, y) \<in> set ps" for x y
  proof -
    from that fresh have ne: "x \<noteq> a" "x \<noteq> b" "y \<noteq> a" "y \<noteq> b" by force+
    from that r have "0 \<le> x" "0 \<le> y" by (auto simp: in_range_def)
    with ne other have "s1 ! nat x = s ! nat x" "s1 ! nat y = s ! nat y" by auto
    with prs that show ?thesis by auto
  qed
  moreover have "s' ! nat j = s ! nat j"
    if "0 \<le> j" "j \<notin> fst ` set (p # ps)" "j \<notin> snd ` set (p # ps)" for j
  proof -
    from that p have "j \<noteq> a" "j \<noteq> b" "j \<notin> fst ` set ps" "j \<notin> snd ` set ps" by auto
    with rest other that(1) show ?thesis by simp
  qed
  ultimately show ?case using p by auto
qed

section \<open>The indices enumerated by ApplyGate\<close>

lemma control_loop_fst:
  "fst (control_loop n cs (a, l)) = a + (\<Sum>c\<leftarrow>cs. pow2 (n - c - 1))"
  by (induction cs arbitrary: a l) (simp_all add: Let_def)

lemma control_loop_snd_set:
  "set (snd (control_loop n cs (a, l))) = set l \<union> (\<lambda>c. pow2 (n - c - 1)) ` set cs"
  by (induction cs arbitrary: a l) (auto simp: Let_def set_insort_insert)

lemma control_loop_snd_sorted:
  "sorted l \<Longrightarrow> distinct l \<Longrightarrow>
   sorted (snd (control_loop n cs (a, l))) \<and> distinct (snd (control_loop n cs (a, l)))"
  by (induction cs arbitrary: a l) (simp_all add: Let_def sorted_insort_insert distinct_insort_insert)

lemma check_controls_eq:
  "0 \<notin> set qs \<Longrightarrow> check_controls i qs = Some (\<forall>q\<in>set qs. even (i div q))"
  by (induction qs) (auto simp: odd_iff_mod_2_eq_one)

lemma ParallelFor_DoWork:
  "ParallelFor total_size bs (DoWork gate tk cks cktot) s
   = for_loop (concat (map (\<lambda>g. [g..g + tk - 1]) (map fst (fixed_blocks total_size bs))))
       (DoWork_body gate tk cks cktot) s"
proof -
  have "(\<lambda>(start, limit). DoWork gate tk cks cktot start limit)
        = (\<lambda>p. for_loop ((\<lambda>g. [g..g + tk - 1]) (fst p)) (DoWork_body gate tk cks cktot))"
    by (auto simp: DoWork_def fun_eq_iff)
  then show ?thesis
    by (simp add: ParallelFor_def for_loop_concat map_map o_def)
qed

lemma fixed_blocks_fst:
  assumes "0 < W" "0 < K"
  shows "map fst (fixed_blocks (K * W) W) = map (\<lambda>b. b * W) [0..K - 1]"
proof (cases "K = 1")
  case True
  then show ?thesis using assms by (simp add: fixed_blocks_def)
next
  case False
  with assms have K: "2 \<le> K" by simp
  then have "W * 2 \<le> K * W" using assms by (simp add: mult.commute)
  then have gt: "\<not> K * W \<le> W" using assms by linarith
  have "K * W - 1 = (K - 1) * W + (W - 1)" by (simp add: algebra_simps)
  also have "\<dots> div W = K - 1"
    using assms by (simp add: div_pos_pos_trivial)
  finally have d: "(K * W - 1) div W = K - 1" .
  have "fixed_blocks (K * W) W = map (\<lambda>b. (b * W, min ((b + 1) * W) (K * W))) [0..K - 1]"
    unfolding fixed_blocks_def using gt assms d by simp
  then show ?thesis by (simp add: o_def)
qed

lemma pow2_split:
  assumes "0 \<le> t" "t < n"
  shows "(2::int) ^ nat n = 2 ^ nat t * (2 * 2 ^ nat (n - t - 1))"
proof -
  have e: "nat n = nat t + Suc (nat (n - t - 1))" using assms by linarith
  show ?thesis by (subst e) (simp add: power_add)
qed

lemma fixed_blocks_starts:
  assumes "0 \<le> t" "t < n"
  shows "map fst (fixed_blocks (2 ^ nat n) (2 * 2 ^ nat (n - t - 1)))
         = map (\<lambda>b. b * (2 * 2 ^ nat (n - t - 1))) [0..2 ^ nat t - 1]"
  unfolding pow2_split [OF assms] by (rule fixed_blocks_fst) simp_all

lemma window_iff:
  assumes "0 < (T::int)"
  shows "(\<exists>b. 0 \<le> b \<and> b \<le> K - 1 \<and> b * (2 * T) \<le> i \<and> i \<le> b * (2 * T) + T - 1)
         \<longleftrightarrow> 0 \<le> i \<and> i < K * (2 * T) \<and> even (i div T)"
proof
  assume "\<exists>b. 0 \<le> b \<and> b \<le> K - 1 \<and> b * (2 * T) \<le> i \<and> i \<le> b * (2 * T) + T - 1"
  then obtain b where b: "0 \<le> b" "b \<le> K - 1" "b * (2 * T) \<le> i" "i \<le> b * (2 * T) + T - 1"
    by blast
  define r where "r = i - b * (2 * T)"
  have r: "0 \<le> r" "r < T" "i = (2 * b) * T + r" using b by (simp_all add: r_def)
  have "i div T = 2 * b" using r assms by (simp add: div_pos_pos_trivial)
  moreover have "0 \<le> i" using b assms by (smt (verit) mult_nonneg_nonneg)
  moreover have "i < K * (2 * T)"
  proof -
    have "(b + 1) * (2 * T) \<le> K * (2 * T)" using b assms by (intro mult_right_mono) simp_all
    then show ?thesis using b assms by (simp add: algebra_simps)
  qed
  ultimately show "0 \<le> i \<and> i < K * (2 * T) \<and> even (i div T)" by simp
next
  assume a: "0 \<le> i \<and> i < K * (2 * T) \<and> even (i div T)"
  then obtain b where b: "i div T = 2 * b" by (auto elim: evenE)
  have i: "i = T * (2 * b) + i mod T" using b by (metis mult_div_mod_eq)
  have m: "0 \<le> i mod T" "i mod T < T" using assms by simp_all
  have "0 \<le> i div T" using a assms by (simp add: pos_imp_zdiv_nonneg_iff)
  then have b0: "0 \<le> b" using b by simp
  have "b < K"
  proof (rule ccontr)
    assume "\<not> b < K"
    then have "K * (2 * T) \<le> b * (2 * T)" using assms by (intro mult_right_mono) simp_all
    moreover have "T * (2 * b) = b * (2 * T)" by simp
    ultimately show False using a i m by linarith
  qed
  then show "\<exists>b. 0 \<le> b \<and> b \<le> K - 1 \<and> b * (2 * T) \<le> i \<and> i \<le> b * (2 * T) + T - 1"
    using b0 i m by (intro exI [of _ b]) (simp add: algebra_simps)
qed

lemma set_half_windows:
  assumes "0 < T"
  shows "set (concat (map (\<lambda>g. [g..g + T - 1]) (map (\<lambda>b. b * (2 * T)) [0..K - 1])))
         = {i. 0 \<le> i \<and> i < K * (2 * T) \<and> even (i div T)}"
proof (rule set_eqI)
  fix i
  have "i \<in> set (concat (map (\<lambda>g. [g..g + T - 1]) (map (\<lambda>b. b * (2 * T)) [0..K - 1])))
        \<longleftrightarrow> (\<exists>b\<in>{0..K - 1}. i \<in> {b * (2 * T)..b * (2 * T) + T - 1})"
    by simp
  also have "\<dots> \<longleftrightarrow> (\<exists>b. 0 \<le> b \<and> b \<le> K - 1 \<and> b * (2 * T) \<le> i \<and> i \<le> b * (2 * T) + T - 1)"
    unfolding Bex_def atLeastAtMost_iff by blast
  also have "\<dots> \<longleftrightarrow> 0 \<le> i \<and> i < K * (2 * T) \<and> even (i div T)"
    by (rule window_iff [OF assms])
  finally show "i \<in> set (concat (map (\<lambda>g. [g..g + T - 1]) (map (\<lambda>b. b * (2 * T)) [0..K - 1])))
        \<longleftrightarrow> i \<in> {i. 0 \<le> i \<and> i < K * (2 * T) \<and> even (i div T)}"
    by simp
qed

lemma distinct_half_windows:
  assumes "0 < T"
  shows "distinct (concat (map (\<lambda>g. [g..g + T - 1]) (map (\<lambda>b. b * (2 * T)) [0..K - 1])))"
proof (rule distinct_concat)
  have "inj_on (\<lambda>b. [b * (2 * T)..b * (2 * T) + T - 1]) (set [0..K - 1])"
  proof (rule inj_onI)
    fix x y assume "[x * (2 * T)..x * (2 * T) + T - 1] = [y * (2 * T)..y * (2 * T) + T - 1]"
    then have "hd [x * (2 * T)..x * (2 * T) + T - 1] = hd [y * (2 * T)..y * (2 * T) + T - 1]"
      by simp
    then have "x * (2 * T) = y * (2 * T)" using assms by (simp add: upto_rec1)
    then show "x = y" using assms by simp
  qed
  then show "distinct (map (\<lambda>g. [g..g + T - 1]) (map (\<lambda>b. b * (2 * T)) [0..K - 1]))"
    by (simp add: distinct_map o_def)
next
  fix ys assume "ys \<in> set (map (\<lambda>g. [g..g + T - 1]) (map (\<lambda>b. b * (2 * T)) [0..K - 1]))"
  then show "distinct ys" by auto
next
  fix ys zs
  assume ys: "ys \<in> set (map (\<lambda>g. [g..g + T - 1]) (map (\<lambda>b. b * (2 * T)) [0..K - 1]))"
     and zs: "zs \<in> set (map (\<lambda>g. [g..g + T - 1]) (map (\<lambda>b. b * (2 * T)) [0..K - 1]))"
     and ne: "ys \<noteq> zs"
  from ys obtain x where x: "ys = [x * (2 * T)..x * (2 * T) + T - 1]" by auto
  from zs obtain y where y: "zs = [y * (2 * T)..y * (2 * T) + T - 1]" by auto
  from ne x y have xy: "x \<noteq> y" by auto
  show "set ys \<inter> set zs = {}"
  proof (rule ccontr)
    assume "set ys \<inter> set zs \<noteq> {}"
    then obtain i where "i \<in> set ys" "i \<in> set zs" by blast
    then have i: "x * (2 * T) \<le> i" "i \<le> x * (2 * T) + T - 1"
                 "y * (2 * T) \<le> i" "i \<le> y * (2 * T) + T - 1"
      using x y by simp_all
    have "i = (2 * x) * T + (i - x * (2 * T))" by simp
    then have "i div T = 2 * x + (i - x * (2 * T)) div T"
      using assms by (metis div_mult_self3 less_irrefl)
    then have dx: "i div T = 2 * x" using i assms by (simp add: div_pos_pos_trivial)
    have "i = (2 * y) * T + (i - y * (2 * T))" by simp
    then have "i div T = 2 * y + (i - y * (2 * T)) div T"
      using assms by (metis div_mult_self3 less_irrefl)
    then have "i div T = 2 * y" using i assms by (simp add: div_pos_pos_trivial)
    with dx xy show False by simp
  qed
qed

section \<open>Bits of the indices\<close>

lemma int_less_exp_if_bits:
  assumes "0 \<le> (x::int)" "\<And>p. bit x p \<Longrightarrow> p < n"
  shows "x < 2 ^ n"
proof -
  have "take_bit n x = x"
    using assms(2) by (auto simp: bit_eq_iff bit_take_bit_iff)
  then show ?thesis by (metis take_bit_int_less_exp)
qed

lemma add_exp_eq_or:
  assumes "\<not> bit (x::int) p"
  shows "x + 2 ^ p = x OR 2 ^ p"
  by (rule disjunctive_add) (use assms in \<open>auto simp: bit_exp_iff\<close>)

lemma control_sum_bits:
  assumes "distinct cs" "\<forall>c\<in>set cs. 0 \<le> c \<and> c < n"
  shows "0 \<le> (\<Sum>c\<leftarrow>cs. (2::int) ^ nat (n - c - 1))
       \<and> (\<forall>p. bit (\<Sum>c\<leftarrow>cs. (2::int) ^ nat (n - c - 1)) p \<longleftrightarrow> p \<in> (\<lambda>c. nat (n - c - 1)) ` set cs)"
  using assms
proof (induction cs)
  case Nil
  then show ?case by simp
next
  case (Cons c cs)
  let ?M = "\<Sum>c\<leftarrow>cs. (2::int) ^ nat (n - c - 1)"
  from Cons have IH: "0 \<le> ?M" "\<And>p. bit ?M p \<longleftrightarrow> p \<in> (\<lambda>c. nat (n - c - 1)) ` set cs"
    by auto
  have "nat (n - c - 1) \<notin> (\<lambda>c. nat (n - c - 1)) ` set cs"
  proof
    assume "nat (n - c - 1) \<in> (\<lambda>c. nat (n - c - 1)) ` set cs"
    then obtain c' where c': "c' \<in> set cs" "nat (n - c - 1) = nat (n - c' - 1)" by auto
    with Cons.prems have "c = c'" by auto
    with c' Cons.prems show False by auto
  qed
  then have nb: "\<not> bit ?M (nat (n - c - 1))" using IH by simp
  have "(\<Sum>c\<leftarrow>c # cs. (2::int) ^ nat (n - c - 1)) = ?M OR 2 ^ nat (n - c - 1)"
    using add_exp_eq_or [OF nb] by (simp add: add.commute)
  moreover have "0 \<le> ?M + 2 ^ nat (n - c - 1)" using IH by simp
  ultimately show ?case using IH
    by (auto simp: bit_or_iff bit_exp_iff add.commute)
qed

lemma control_sum_less:
  assumes "distinct cs" "\<forall>c\<in>set cs. 0 \<le> c \<and> c < n"
  shows "(\<Sum>c\<leftarrow>cs. (2::int) ^ nat (n - c - 1)) < 2 ^ nat n"
proof (rule int_less_exp_if_bits)
  show "0 \<le> (\<Sum>c\<leftarrow>cs. (2::int) ^ nat (n - c - 1))"
    using control_sum_bits [OF assms] by simp
next
  fix p assume "bit (\<Sum>c\<leftarrow>cs. (2::int) ^ nat (n - c - 1)) p"
  then have "p \<in> (\<lambda>c. nat (n - c - 1)) ` set cs"
    using control_sum_bits [OF assms] by simp
  then show "p < nat n" using assms by auto
qed

lemma base_plus_controls:
  assumes t: "0 \<le> t" "t < n"
      and cs: "distinct cs" "\<forall>c\<in>set cs. 0 \<le> c \<and> c < n \<and> c \<noteq> t"
      and i: "0 \<le> i" "i < 2 ^ nat n" "\<not> bit i (nat (n - t - 1))"
             "\<forall>c\<in>set cs. \<not> bit i (nat (n - c - 1))"
  defines "M \<equiv> \<Sum>c\<leftarrow>cs. (2::int) ^ nat (n - c - 1)"
  shows "i + M + 2 ^ nat (n - t - 1) < 2 ^ nat n"
    and "\<not> bit (i + M) (nat (n - t - 1))"
    and "\<forall>c\<in>set cs. bit (i + M) (nat (n - c - 1))"
proof -
  have cs': "\<forall>c\<in>set cs. 0 \<le> c \<and> c < n" using cs by auto
  note Mb = control_sum_bits [OF cs(1) cs', folded M_def]
  have Mlt: "M < 2 ^ nat n" unfolding M_def by (rule control_sum_less [OF cs(1) cs'])
  have tM: "\<not> bit M (nat (n - t - 1))"
  proof
    assume "bit M (nat (n - t - 1))"
    then obtain c where "c \<in> set cs" "nat (n - t - 1) = nat (n - c - 1)" using Mb by auto
    with cs t show False by auto
  qed
  have iM: "i + M = i OR M"
    by (rule disjunctive_add) (use i Mb in auto)
  show nt: "\<not> bit (i + M) (nat (n - t - 1))"
    unfolding iM using i tM by (simp add: bit_or_iff)
  show "\<forall>c\<in>set cs. bit (i + M) (nat (n - c - 1))"
    unfolding iM using Mb by (auto simp: bit_or_iff)
  have "0 \<le> i OR M" using i Mb by simp
  moreover have "i OR M < 2 ^ nat n" using i Mlt by (intro OR_upper) simp_all
  moreover have "(2::int) ^ nat (n - t - 1) < 2 ^ nat n" using t by simp
  ultimately have "(i OR M) OR 2 ^ nat (n - t - 1) < 2 ^ nat n" by (rule OR_upper)
  then show "i + M + 2 ^ nat (n - t - 1) < 2 ^ nat n"
    using add_exp_eq_or [OF nt] iM by simp
qed

lemma index_minus_controls:
  assumes cs: "distinct cs" "\<forall>c\<in>set cs. 0 \<le> c \<and> c < n \<and> c \<noteq> t"
      and t: "0 \<le> t" "t < n"
      and j: "0 \<le> j" "\<not> bit j (nat (n - t - 1))" "\<forall>c\<in>set cs. bit j (nat (n - c - 1))"
  defines "M \<equiv> \<Sum>c\<leftarrow>cs. (2::int) ^ nat (n - c - 1)"
  shows "0 \<le> j - M"
    and "\<not> bit (j - M) (nat (n - t - 1))"
    and "\<forall>c\<in>set cs. \<not> bit (j - M) (nat (n - c - 1))"
proof -
  have cs': "\<forall>c\<in>set cs. 0 \<le> c \<and> c < n" using cs by auto
  note Mb = control_sum_bits [OF cs(1) cs', folded M_def]
  define i where "i = j AND NOT M"
  have ib: "bit i p \<longleftrightarrow> bit j p \<and> \<not> bit M p" for p
    by (simp add: i_def bit_and_iff bit_not_iff)
  have "i + M = i OR M" by (rule disjunctive_add) (simp add: ib)
  also have "\<dots> = j"
    using Mb j(3) by (auto simp: bit_eq_iff bit_or_iff ib)
  finally have e: "j - M = i" by simp
  show "0 \<le> j - M" unfolding e i_def using j(1) by simp
  show "\<not> bit (j - M) (nat (n - t - 1))" unfolding e using j(2) by (simp add: ib)
  show "\<forall>c\<in>set cs. \<not> bit (j - M) (nat (n - c - 1))" unfolding e using Mb by (auto simp: ib)
qed

lemma pow2_nonneg_arg: "0 \<le> e \<Longrightarrow> pow2 e = 2 ^ nat e"
  by (simp add: pow2_def)

lemma control_loop_valid:
  assumes "\<forall>c\<in>set cs. c < n"
  obtains cks where "control_loop n cs (0, []) = (\<Sum>c\<leftarrow>cs. 2 ^ nat (n - c - 1), cks)"
    and "set cks = (\<lambda>c. 2 ^ nat (n - c - 1)) ` set cs"
proof -
  have e: "pow2 (n - c - 1) = 2 ^ nat (n - c - 1)" if "c \<in> set cs" for c
    using that assms by (simp add: pow2_nonneg_arg)
  have "fst (control_loop n cs (0, [])) = (\<Sum>c\<leftarrow>cs. 2 ^ nat (n - c - 1))"
    unfolding control_loop_fst using e by (simp cong: map_cong)
  moreover have "set (snd (control_loop n cs (0, []))) = (\<lambda>c. 2 ^ nat (n - c - 1)) ` set cs"
    unfolding control_loop_snd_set using e by auto
  ultimately show thesis
    by (intro that [of "snd (control_loop n cs (0, []))"]) (simp_all add: prod_eq_iff)
qed

lemma check_controls_valid:
  assumes "set cks = (\<lambda>c. (2::int) ^ nat (n - c - 1)) ` set cs"
  shows "check_controls i cks = Some (\<forall>c\<in>set cs. \<not> bit i (nat (n - c - 1)))"
proof -
  have "0 \<notin> set cks" using assms by auto
  then show ?thesis using assms by (simp add: check_controls_eq bit_iff_odd)
qed

lemma eligible_bases_eq:
  assumes "0 \<le> t" "t < n" "\<forall>c\<in>set cs. c < n"
  shows "eligible_bases n t cs
         = filter (\<lambda>i. \<forall>c\<in>set cs. \<not> bit i (nat (n - c - 1)))
             (concat (map (\<lambda>g. [g..g + 2 ^ nat (n - t - 1) - 1])
                (map (\<lambda>b. b * (2 * 2 ^ nat (n - t - 1))) [0..2 ^ nat t - 1])))"
proof -
  obtain cks where cl: "control_loop n cs (0, []) = (\<Sum>c\<leftarrow>cs. 2 ^ nat (n - c - 1), cks)"
    and cks: "set cks = (\<lambda>c. 2 ^ nat (n - c - 1)) ` set cs"
    using control_loop_valid [OF assms(3)] by blast
  have "eligible_bases n t cs
        = concat (map (filter (\<lambda>i. \<forall>c\<in>set cs. \<not> bit i (nat (n - c - 1))))
            (map (\<lambda>g. [g..g + 2 ^ nat (n - t - 1) - 1])
               (map fst (fixed_blocks (2 ^ nat n) (2 * 2 ^ nat (n - t - 1))))))"
    using assms(1,2)
    by (simp add: eligible_bases_def pow2_nonneg_arg cl check_controls_valid [OF cks]
          o_def case_prod_unfold Let_def)
  then show ?thesis
    by (simp only: fixed_blocks_starts [OF assms(1,2)] filter_concat)
qed

lemma ApplyGateFunctor_eq:
  assumes "0 \<le> t" "t < n" "\<forall>c\<in>set cs. c < n"
  shows "ApplyGateFunctor state gate n t cs
         = for_loop (eligible_bases n t cs)
             (\<lambda>i. apply_pair gate (i + fst (control_loop n cs (0, [])))
                    (i + fst (control_loop n cs (0, [])) + pow2 (n - t - 1))) state"
proof -
  obtain cks where cl: "control_loop n cs (0, []) = (\<Sum>c\<leftarrow>cs. 2 ^ nat (n - c - 1), cks)"
    and cks: "set cks = (\<lambda>c. 2 ^ nat (n - c - 1)) ` set cs"
    using control_loop_valid [OF assms(3)] by blast
  let ?M = "\<Sum>c\<leftarrow>cs. (2::int) ^ nat (n - c - 1)"
  let ?T = "(2::int) ^ nat (n - t - 1)"
  let ?P = "\<lambda>i. \<forall>c\<in>set cs. \<not> bit i (nat (n - c - 1))"
  let ?W = "concat (map (\<lambda>g. [g..g + ?T - 1]) (map (\<lambda>b. b * (2 * ?T)) [0..2 ^ nat t - 1]))"
  have body: "DoWork_body gate ?T cks ?M i s
              = (if ?P i then apply_pair gate (i + ?M) (i + ?M + ?T) s else Some s)" for i s
    by (simp add: DoWork_body_def check_controls_valid [OF cks] Let_def)
  have "ApplyGateFunctor state gate n t cs
        = for_loop (concat (map (\<lambda>g. [g..g + ?T - 1])
                      (map fst (fixed_blocks (2 ^ nat n) (2 * ?T)))))
            (DoWork_body gate ?T cks ?M) state"
    using assms(1,2)
    by (simp add: ApplyGateFunctor_def pow2_nonneg_arg cl ParallelFor_DoWork Let_def
          del: map_map)
  also have "\<dots> = for_loop ?W (DoWork_body gate ?T cks ?M) state"
    by (simp only: fixed_blocks_starts [OF assms(1,2)])
  also have "\<dots> = for_loop (filter ?P ?W) (DoWork_body gate ?T cks ?M) state"
    by (rule for_loop_filter) (auto simp: body)
  also have "\<dots> = for_loop (filter ?P ?W) (\<lambda>i. apply_pair gate (i + ?M) (i + ?M + ?T)) state"
    by (rule for_loop_cong) (simp add: body)
  finally show ?thesis
    using assms(1,2) by (simp add: eligible_bases_eq [OF assms] cl pow2_nonneg_arg)
qed

lemma set_eligible_bases:
  assumes "0 \<le> t" "t < n" "\<forall>c\<in>set cs. c < n"
  shows "set (eligible_bases n t cs)
         = {i. 0 \<le> i \<and> i < 2 ^ nat n \<and> \<not> bit i (nat (n - t - 1))
               \<and> (\<forall>c\<in>set cs. \<not> bit i (nat (n - c - 1)))}"
proof -
  let ?T = "(2::int) ^ nat (n - t - 1)"
  let ?W = "concat (map (\<lambda>g. [g..g + ?T - 1]) (map (\<lambda>b. b * (2 * ?T)) [0..2 ^ nat t - 1]))"
  have W: "set ?W = {i. 0 \<le> i \<and> i < 2 ^ nat t * (2 * ?T) \<and> even (i div ?T)}"
    by (rule set_half_windows) simp
  have "set (eligible_bases n t cs) = {i \<in> set ?W. \<forall>c\<in>set cs. \<not> bit i (nat (n - c - 1))}"
    by (simp only: eligible_bases_eq [OF assms] set_filter)
  then show ?thesis
    unfolding W pow2_split [OF assms(1,2)] by (auto simp: bit_iff_odd)
qed

lemma distinct_eligible_bases:
  assumes "0 \<le> t" "t < n" "\<forall>c\<in>set cs. c < n"
  shows "distinct (eligible_bases n t cs)"
  unfolding eligible_bases_eq [OF assms]
  by (intro distinct_filter distinct_half_windows) simp

lemma bit_add_exp:
  assumes "\<not> bit (j::int) p"
  shows "bit (j + 2 ^ p) q \<longleftrightarrow> bit j q \<or> q = p"
  unfolding add_exp_eq_or [OF assms] by (auto simp: bit_or_iff bit_exp_iff)

lemma sub_exp_eq_and_not:
  assumes "bit (j::int) p"
  shows "j - 2 ^ p = j AND NOT (2 ^ p)"
proof -
  have nb: "\<not> bit (j AND NOT (2 ^ p)) p" by (simp add: bit_and_iff bit_not_iff bit_exp_iff)
  have "(j AND NOT (2 ^ p)) + 2 ^ p = (j AND NOT (2 ^ p)) OR 2 ^ p"
    by (rule add_exp_eq_or [OF nb])
  also have "\<dots> = j"
    by (rule bit_eqI) (use assms in \<open>auto simp: bit_or_iff bit_and_iff bit_not_iff bit_exp_iff\<close>)
  finally show ?thesis by simp
qed

lemma bit_sub_exp:
  assumes "bit (j::int) p"
  shows "bit (j - 2 ^ p) q \<longleftrightarrow> bit j q \<and> q \<noteq> p"
  unfolding sub_exp_eq_and_not [OF assms]
  by (auto simp: bit_and_iff bit_not_iff bit_exp_iff)

lemma sub_exp_nonneg:
  assumes "bit (j::int) p" "0 \<le> j"
  shows "0 \<le> j - 2 ^ p"
  unfolding sub_exp_eq_and_not [OF assms(1)] using assms(2) by simp

lemma control_loop_fst_valid:
  assumes "\<forall>c\<in>set cs. c < n"
  shows "fst (control_loop n cs (0, [])) = (\<Sum>c\<leftarrow>cs. 2 ^ nat (n - c - 1))"
  using control_loop_valid [OF assms] by (metis fst_conv)

lemma gate_pairs_in_range:
  assumes t: "0 \<le> t" "t < n"
      and cs: "distinct cs" "\<forall>c\<in>set cs. 0 \<le> c \<and> c < n \<and> c \<noteq> t"
      and i: "i \<in> set (eligible_bases n t cs)"
  defines "M \<equiv> \<Sum>c\<leftarrow>cs. (2::int) ^ nat (n - c - 1)"
  shows "0 \<le> i + M" and "i + M + 2 ^ nat (n - t - 1) < 2 ^ nat n"
proof -
  have cs1: "\<forall>c\<in>set cs. c < n" and cs2: "\<forall>c\<in>set cs. 0 \<le> c \<and> c < n" using cs by auto
  from i have ib: "0 \<le> i" "i < 2 ^ nat n" "\<not> bit i (nat (n - t - 1))"
      "\<forall>c\<in>set cs. \<not> bit i (nat (n - c - 1))"
    unfolding set_eligible_bases [OF t cs1] by auto
  have "0 \<le> M" unfolding M_def using control_sum_bits [OF cs(1) cs2] by simp
  then show "0 \<le> i + M" using ib by simp
  show "i + M + 2 ^ nat (n - t - 1) < 2 ^ nat n"
    unfolding M_def by (rule base_plus_controls(1) [OF t cs ib])
qed

lemma gate_pairs_distinct:
  assumes t: "0 \<le> t" "t < n" and cs: "\<forall>c\<in>set cs. c < n"
  shows "distinct (map (\<lambda>i. i + M) (eligible_bases n t cs)
                 @ map (\<lambda>i. i + M + 2 ^ nat (n - t - 1)) (eligible_bases n t cs))"
proof -
  have d: "distinct (eligible_bases n t cs)" by (rule distinct_eligible_bases [OF t cs])
  have "i + M \<noteq> i' + M + 2 ^ nat (n - t - 1)"
    if "i \<in> set (eligible_bases n t cs)" "i' \<in> set (eligible_bases n t cs)" for i i'
  proof
    assume "i + M = i' + M + 2 ^ nat (n - t - 1)"
    then have e: "i = i' + 2 ^ nat (n - t - 1)" by simp
    from that have "\<not> bit i (nat (n - t - 1))" "\<not> bit i' (nat (n - t - 1))"
      unfolding set_eligible_bases [OF t cs] by auto
    then show False unfolding e by (simp add: bit_add_exp)
  qed
  then show ?thesis using d by (auto simp: distinct_map inj_on_def)
qed

lemma apply_gate_pointwise:
  assumes t: "0 \<le> t" "t < n"
      and cs: "distinct cs" "\<forall>c\<in>set cs. 0 \<le> c \<and> c < n \<and> c \<noteq> t"
      and len: "length state = 2 ^ nat n"
  shows "\<exists>new. ApplyGateFunctor state (g0, g1, g2, g3) n t cs = Some new
            \<and> length new = length state
            \<and> (\<forall>j. 0 \<le> j \<and> j < 2 ^ nat n \<longrightarrow>
                 new ! nat j =
                   (if \<forall>c\<in>set cs. bit j (nat (n - c - 1)) then
                      if bit j (nat (n - t - 1))
                      then g2 * state ! nat (j - 2 ^ nat (n - t - 1)) + g3 * state ! nat j
                      else g0 * state ! nat j + g1 * state ! nat (j + 2 ^ nat (n - t - 1))
                    else state ! nat j))"
proof -
  let ?M = "\<Sum>c\<leftarrow>cs. (2::int) ^ nat (n - c - 1)"
  let ?T = "(2::int) ^ nat (n - t - 1)"
  let ?B = "eligible_bases n t cs"
  let ?ps = "map (\<lambda>i. (i + ?M, i + ?M + ?T)) ?B"
  have cs1: "\<forall>c\<in>set cs. c < n" and cs2: "\<forall>c\<in>set cs. 0 \<le> c \<and> c < n" using cs by auto
  note Mb = control_sum_bits [OF cs(1) cs2]
  have tpos: "nat (n - c - 1) \<noteq> nat (n - t - 1)" if "c \<in> set cs" for c
    using that cs t by auto
  have run: "ApplyGateFunctor state (g0, g1, g2, g3) n t cs
             = for_loop ?ps (\<lambda>(i1, i2). apply_pair (g0, g1, g2, g3) i1 i2) state"
    using t by (simp add: ApplyGateFunctor_eq [OF t cs1] control_loop_fst_valid [OF cs1]
                  pow2_nonneg_arg for_loop_map)
  have d: "distinct (map fst ?ps @ map snd ?ps)"
    using gate_pairs_distinct [OF t cs1, of ?M] by (simp add: o_def)
  have r: "\<forall>(a, b) \<in> set ?ps. in_range state a \<and> in_range state b"
  proof -
    have "in_range state (i + ?M) \<and> in_range state (i + ?M + ?T)" if "i \<in> set ?B" for i
    proof -
      note g = gate_pairs_in_range [OF t cs that]
      have "i + ?M < i + ?M + ?T" by simp
      with g have "i + ?M < 2 ^ nat n" by linarith
      with g len show ?thesis by (simp add: in_range_def)
    qed
    then show ?thesis by auto
  qed
  from pairs_loop [OF d r, of g0 g1 g2 g3] obtain new where
    new: "for_loop ?ps (\<lambda>(i1, i2). apply_pair (g0, g1, g2, g3) i1 i2) state = Some new"
    and nlen: "length new = length state"
    and prs: "\<forall>(a, b) \<in> set ?ps. new ! nat a = g0 * state ! nat a + g1 * state ! nat b
                                 \<and> new ! nat b = g2 * state ! nat a + g3 * state ! nat b"
    and rest: "\<forall>j. 0 \<le> j \<and> j \<notin> fst ` set ?ps \<and> j \<notin> snd ` set ?ps \<longrightarrow> new ! nat j = state ! nat j"
    by blast
  have lower: "(j, j + ?T) \<in> set ?ps"
    if "0 \<le> j" "j < 2 ^ nat n" "\<forall>c\<in>set cs. bit j (nat (n - c - 1))" "\<not> bit j (nat (n - t - 1))" for j
  proof -
    have "0 \<le> ?M" using Mb by simp
    then have "j - ?M < 2 ^ nat n" using that by simp
    then have "j - ?M \<in> set ?B"
      unfolding set_eligible_bases [OF t cs1]
      using index_minus_controls [OF cs t that(1,4,3)] by simp
    then have "(\<lambda>i. (i + ?M, i + ?M + ?T)) (j - ?M) \<in> (\<lambda>i. (i + ?M, i + ?M + ?T)) ` set ?B"
      by (rule imageI)
    then show ?thesis by simp
  qed
  have ctrl: "\<forall>c\<in>set cs. bit a (nat (n - c - 1)) \<and> bit b (nat (n - c - 1))"
    if "(a, b) \<in> set ?ps" for a b
  proof -
    from that obtain i where i: "i \<in> set ?B" "a = i + ?M" "b = i + ?M + ?T" by auto
    from i(1) have ib: "0 \<le> i" "i < 2 ^ nat n" "\<not> bit i (nat (n - t - 1))"
        "\<forall>c\<in>set cs. \<not> bit i (nat (n - c - 1))"
      unfolding set_eligible_bases [OF t cs1] by auto
    note bp = base_plus_controls [OF t cs ib]
    show ?thesis unfolding i using bp(2,3) by (simp add: bit_add_exp)
  qed
  have "new ! nat j =
          (if \<forall>c\<in>set cs. bit j (nat (n - c - 1)) then
             if bit j (nat (n - t - 1))
             then g2 * state ! nat (j - ?T) + g3 * state ! nat j
             else g0 * state ! nat j + g1 * state ! nat (j + ?T)
           else state ! nat j)" if j: "0 \<le> j" "j < 2 ^ nat n" for j
  proof (cases "\<forall>c\<in>set cs. bit j (nat (n - c - 1))")
    case False
    then have "j \<notin> fst ` set ?ps" "j \<notin> snd ` set ?ps" using ctrl by force+
    with rest j have "new ! nat j = state ! nat j" by blast
    with False show ?thesis by auto
  next
    case True
    show ?thesis
    proof (cases "bit j (nat (n - t - 1))")
      case False
      from lower [OF j True False] prs
      have "new ! nat j = g0 * state ! nat j + g1 * state ! nat (j + ?T)" by blast
      with True False show ?thesis by auto
    next
      case tb: True
      let ?j' = "j - ?T"
      have "0 \<le> ?j'" by (rule sub_exp_nonneg [OF tb j(1)])
      moreover have "?j' < 2 ^ nat n"
      proof -
        have "?j' \<le> j" by simp
        with j show ?thesis by linarith
      qed
      moreover have "\<forall>c\<in>set cs. bit ?j' (nat (n - c - 1))"
        using True tpos by (simp add: bit_sub_exp [OF tb])
      moreover have "\<not> bit ?j' (nat (n - t - 1))" by (simp add: bit_sub_exp [OF tb])
      ultimately have "(?j', ?j' + ?T) \<in> set ?ps" by (rule lower)
      then have "(?j', j) \<in> set ?ps" by simp
      with prs have "new ! nat j = g2 * state ! nat ?j' + g3 * state ! nat j" by blast
      with True tb show ?thesis by auto
    qed
  qed
  with run new nlen show ?thesis by simp
qed

section \<open>Basis index pairs\<close>

lemma high_bits_clear:
  assumes "0 \<le> (i::int)" "i < 2 ^ n" "n \<le> p"
  shows "\<not> bit i p"
proof -
  have "(2::int) ^ n \<le> 2 ^ p" using assms(3) by simp
  with assms have "i < 2 ^ p" by linarith
  with assms(1) show ?thesis by (simp add: bit_iff_odd div_pos_pos_trivial)
qed

lemma qubit_bit_iff: "qubit_bit n q i \<longleftrightarrow> bit i (nat (n - q - 1))"
  by (simp add: qubit_bit_def bit_iff_odd)

lemma basis_pair_offset:
  assumes t: "0 \<le> t" "t < n" and bp: "basis_pair n t i1 i2"
  shows "i2 = i1 + 2 ^ nat (n - t - 1)"
proof -
  from bp have r: "0 \<le> i1" "i1 < 2 ^ nat n" "0 \<le> i2" "i2 < 2 ^ nat n"
    and b1: "\<not> bit i1 (nat (n - t - 1))" and b2: "bit i2 (nat (n - t - 1))"
    and eq: "\<And>q. 0 \<le> q \<Longrightarrow> q < n \<Longrightarrow> q \<noteq> t \<Longrightarrow> bit i1 (nat (n - q - 1)) = bit i2 (nat (n - q - 1))"
    by (auto simp: basis_pair_def qubit_bit_iff)
  have "bit (i1 + 2 ^ nat (n - t - 1)) p = bit i2 p" for p
  proof (cases "p < nat n")
    case False
    then have "\<not> bit i1 p" "\<not> bit i2 p" using r by (simp_all add: high_bits_clear)
    moreover have "p \<noteq> nat (n - t - 1)" using False t by linarith
    ultimately show ?thesis by (simp add: bit_add_exp [OF b1])
  next
    case True
    define q where "q = n - 1 - int p"
    have q: "0 \<le> q" "q < n" "nat (n - q - 1) = p" using True by (simp_all add: q_def)
    show ?thesis
    proof (cases "q = t")
      case True
      with q have "p = nat (n - t - 1)" by simp
      with b2 show ?thesis by (simp add: bit_add_exp [OF b1])
    next
      case False
      with q t have "p \<noteq> nat (n - t - 1)" by linarith
      moreover from eq [OF q(1,2) False] q(3) have "bit i1 p = bit i2 p" by simp
      ultimately show ?thesis by (simp add: bit_add_exp [OF b1])
    qed
  qed
  then show ?thesis by (simp add: bit_eq_iff)
qed


section \<open>ApplyGate: what a call does to each pair\<close>

text \<open>
  Claim C1. For a state vector of length \<open>2 ^ nqubits\<close>, any gate, a target with
  \<open>0 \<le> target < nqubits\<close> and distinct controls different from the target: the call
  returns, and for every basis index pair \<open>(i1, i2)\<close> that differs only in the target bit,
  with that bit 0 in \<open>i1\<close> and all control bits of \<open>i1\<close> equal to 1, the new amplitudes
  are \<open>gate[0] * old[i1] + gate[1] * old[i2]\<close> at \<open>i1\<close> and
  \<open>gate[2] * old[i1] + gate[3] * old[i2]\<close> at \<open>i2\<close>, the old values being those before
  the call.
\<close>
theorem ApplyGate_pair_update:
  assumes "0 \<le> target" and "target < nqubits"
      and "distinct controls"
      and "\<forall>c\<in>set controls. 0 \<le> c \<and> c < nqubits \<and> c \<noteq> target"
      and "length state = 2 ^ nat nqubits"
      and "basis_pair nqubits target i1 i2"
      and "\<forall>c\<in>set controls. qubit_bit nqubits c i1"
  shows "\<exists>new. ApplyGateFunctor state (g0, g1, g2, g3) nqubits target controls = Some new
           \<and> length new = length state
           \<and> new ! nat i1 = g0 * state ! nat i1 + g1 * state ! nat i2
           \<and> new ! nat i2 = g2 * state ! nat i1 + g3 * state ! nat i2"
proof -
  let ?T = "(2::int) ^ nat (nqubits - target - 1)"
  have i2: "i2 = i1 + ?T" by (rule basis_pair_offset [OF assms(1,2,6)])
  from assms(6) have r: "0 \<le> i1" "i1 < 2 ^ nat nqubits" "0 \<le> i2" "i2 < 2 ^ nat nqubits"
    and b1: "\<not> bit i1 (nat (nqubits - target - 1))" and b2: "bit i2 (nat (nqubits - target - 1))"
    by (auto simp: basis_pair_def qubit_bit_iff)
  have c1: "\<forall>c\<in>set controls. bit i1 (nat (nqubits - c - 1))"
    using assms(7) by (simp add: qubit_bit_iff)
  have "nat (nqubits - c - 1) \<noteq> nat (nqubits - target - 1)" if "c \<in> set controls" for c
    using that assms(1,2,4) by auto
  then have c2: "\<forall>c\<in>set controls. bit i2 (nat (nqubits - c - 1))"
    unfolding i2 using c1 by (simp add: bit_add_exp [OF b1])
  from apply_gate_pointwise [OF assms(1-5), of g0 g1 g2 g3] obtain new where
    run: "ApplyGateFunctor state (g0, g1, g2, g3) nqubits target controls = Some new"
    and len: "length new = length state"
    and pt: "\<And>j. 0 \<le> j \<Longrightarrow> j < 2 ^ nat nqubits \<Longrightarrow>
               new ! nat j =
                 (if \<forall>c\<in>set controls. bit j (nat (nqubits - c - 1)) then
                    if bit j (nat (nqubits - target - 1))
                    then g2 * state ! nat (j - ?T) + g3 * state ! nat j
                    else g0 * state ! nat j + g1 * state ! nat (j + ?T)
                  else state ! nat j)"
    by blast
  have "new ! nat i1 = g0 * state ! nat i1 + g1 * state ! nat i2"
    using pt [OF r(1,2)] c1 b1 i2 by simp
  moreover have "new ! nat i2 = g2 * state ! nat i1 + g3 * state ! nat i2"
    using pt [OF r(3,4)] c2 b2 i2 by simp
  ultimately show ?thesis using run len by simp
qed


theorem ApplyGate_pair_update_witness:
  "\<exists>new. ApplyGateFunctor [0, 0, 0, 0, 0, 0, 1, 0] (0, 1, 1, 0) 3 2 [0] = Some new
      \<and> length new = 8 \<and> new ! 6 = 0 \<and> new ! 7 = 1"
proof -
  have bp: "basis_pair 3 2 6 7" by code_simp
  have cb: "\<forall>c\<in>set [0]. qubit_bit 3 c 6" by code_simp
  show ?thesis
    using ApplyGate_pair_update [of 2 3 "[0]" "[0, 0, 0, 0, 0, 0, 1, 0]" 6 7 0 1 1 0, OF _ _ _ _ _ bp cb]
    by (simp add: eval_nat_numeral)
qed

text \<open>
  Claim C6. Under the same preconditions, a basis index pair \<open>(i1, i2)\<close> for which not all
  control bits of \<open>i1\<close> are 1 keeps both its amplitudes.
\<close>
theorem ApplyGate_uncontrolled_pair_unchanged:
  assumes "0 \<le> target" and "target < nqubits"
      and "distinct controls"
      and "\<forall>c\<in>set controls. 0 \<le> c \<and> c < nqubits \<and> c \<noteq> target"
      and "length state = 2 ^ nat nqubits"
      and "basis_pair nqubits target i1 i2"
      and "\<not> (\<forall>c\<in>set controls. qubit_bit nqubits c i1)"
  shows "\<exists>new. ApplyGateFunctor state (g0, g1, g2, g3) nqubits target controls = Some new
           \<and> length new = length state
           \<and> new ! nat i1 = state ! nat i1 \<and> new ! nat i2 = state ! nat i2"
proof -
  let ?T = "(2::int) ^ nat (nqubits - target - 1)"
  have i2: "i2 = i1 + ?T" by (rule basis_pair_offset [OF assms(1,2,6)])
  from assms(6) have r: "0 \<le> i1" "i1 < 2 ^ nat nqubits" "0 \<le> i2" "i2 < 2 ^ nat nqubits"
    and b1: "\<not> bit i1 (nat (nqubits - target - 1))"
    by (auto simp: basis_pair_def qubit_bit_iff)
  from assms(7) obtain c where c: "c \<in> set controls" "\<not> bit i1 (nat (nqubits - c - 1))"
    by (auto simp: qubit_bit_iff)
  have "nat (nqubits - c - 1) \<noteq> nat (nqubits - target - 1)"
    using c(1) assms(1,2,4) by auto
  then have c2: "\<not> bit i2 (nat (nqubits - c - 1))"
    unfolding i2 using c(2) by (simp add: bit_add_exp [OF b1])
  from apply_gate_pointwise [OF assms(1-5), of g0 g1 g2 g3] obtain new where
    run: "ApplyGateFunctor state (g0, g1, g2, g3) nqubits target controls = Some new"
    and len: "length new = length state"
    and pt: "\<And>j. 0 \<le> j \<Longrightarrow> j < 2 ^ nat nqubits \<Longrightarrow>
               new ! nat j =
                 (if \<forall>c\<in>set controls. bit j (nat (nqubits - c - 1)) then
                    if bit j (nat (nqubits - target - 1))
                    then g2 * state ! nat (j - ?T) + g3 * state ! nat j
                    else g0 * state ! nat j + g1 * state ! nat (j + ?T)
                  else state ! nat j)"
    by blast
  have "new ! nat i1 = state ! nat i1" using pt [OF r(1,2)] c by auto
  moreover have "new ! nat i2 = state ! nat i2" using pt [OF r(3,4)] c(1) c2 by auto
  ultimately show ?thesis using run len by simp
qed

theorem ApplyGate_uncontrolled_pair_unchanged_witness:
  "\<exists>new. ApplyGateFunctor [0, 0, 1, 0, 0, 0, 0, 0] (0, 1, 1, 0) 3 2 [0] = Some new
      \<and> length new = 8 \<and> new ! 2 = 1 \<and> new ! 3 = 0"
proof -
  have bp: "basis_pair 3 2 2 3" by code_simp
  have cb: "\<not> (\<forall>c\<in>set [0]. qubit_bit 3 c 2)" by code_simp
  show ?thesis
    using ApplyGate_uncontrolled_pair_unchanged
            [of 2 3 "[0]" "[0, 0, 1, 0, 0, 0, 0, 0]" 2 3 0 1 1 0, OF _ _ _ _ _ bp cb]
    by (simp add: eval_nat_numeral)
qed

text \<open>
  Claim C10. Under the preconditions on target and controls, the run of ApplyGate is the
  run of the pair update over the eligible bases \<open>i\<close>; for each of them
  \<open>i1 = i + cktot\<close> and \<open>i2 = i1 + tk\<close> satisfy \<open>0 \<le> i1 < i2 < 2 ^ nqubits\<close>; the pairs
  of two different bases are disjoint; and no index occurs twice among all the \<open>i1\<close> and
  \<open>i2\<close> of the call, so every index is written at most once.
\<close>
theorem ApplyGate_writes_in_bounds_and_disjoint:
  assumes "0 \<le> target" and "target < nqubits"
      and "distinct controls"
      and "\<forall>c\<in>set controls. 0 \<le> c \<and> c < nqubits \<and> c \<noteq> target"
  shows "let cktot = fst (control_loop nqubits controls (0, []));
             tk = pow2 (nqubits - target - 1);
             bases = eligible_bases nqubits target controls
         in ApplyGateFunctor state gate nqubits target controls
              = for_loop bases (\<lambda>i. apply_pair gate (i + cktot) (i + cktot + tk)) state
          \<and> (\<forall>i\<in>set bases.
                0 \<le> i + cktot \<and> i + cktot < i + cktot + tk \<and> i + cktot + tk < 2 ^ nat nqubits)
          \<and> (\<forall>i\<in>set bases. \<forall>i'\<in>set bases. i \<noteq> i' \<longrightarrow>
                {i + cktot, i + cktot + tk} \<inter> {i' + cktot, i' + cktot + tk} = {})
          \<and> distinct (map (\<lambda>i. i + cktot) bases @ map (\<lambda>i. i + cktot + tk) bases)"
proof -
  define cktot where "cktot = fst (control_loop nqubits controls (0, []))"
  define tk where "tk = pow2 (nqubits - target - 1)"
  define bases where "bases = eligible_bases nqubits target controls"
  have cs1: "\<forall>c\<in>set controls. c < nqubits" using assms(4) by auto
  have M: "cktot = (\<Sum>c\<leftarrow>controls. 2 ^ nat (nqubits - c - 1))"
    unfolding cktot_def by (rule control_loop_fst_valid [OF cs1])
  have T: "tk = 2 ^ nat (nqubits - target - 1)"
    unfolding tk_def using assms(2) by (simp add: pow2_nonneg_arg)
  have run: "ApplyGateFunctor state gate nqubits target controls
           = for_loop bases (\<lambda>i. apply_pair gate (i + cktot) (i + cktot + tk)) state"
    unfolding cktot_def tk_def bases_def by (rule ApplyGateFunctor_eq [OF assms(1,2) cs1])
  have rng: "\<forall>i\<in>set bases.
           0 \<le> i + cktot \<and> i + cktot < i + cktot + tk \<and> i + cktot + tk < 2 ^ nat nqubits"
    unfolding M T bases_def using gate_pairs_in_range [OF assms(1-4)] by simp
  have d: "distinct (map (\<lambda>i. i + cktot) bases @ map (\<lambda>i. i + cktot + tk) bases)"
    unfolding T bases_def by (rule gate_pairs_distinct [OF assms(1,2) cs1])
  have "\<forall>i\<in>set bases. \<forall>i'\<in>set bases. i \<noteq> i' \<longrightarrow>
           {i + cktot, i + cktot + tk} \<inter> {i' + cktot, i' + cktot + tk} = {}"
    using d by auto
  with run rng d show ?thesis
    unfolding Let_def cktot_def [symmetric] tk_def [symmetric] bases_def [symmetric] by blast
qed

theorem ApplyGate_writes_in_bounds_and_disjoint_witness:
  "eligible_bases 3 1 [0] = [0, 1]
   \<and> ApplyGateFunctor [0, 1, 2, 3, 4, 5, 6, 7] (0, 1, 1, 0) 3 1 [0]
       = for_loop [0, 1] (\<lambda>i. apply_pair (0, 1, 1, 0) (i + 4) (i + 4 + 2))
           [0, 1, 2, 3, 4, 5, 6, 7]
   \<and> distinct (map (\<lambda>i. i + 4) [0, 1 :: int] @ map (\<lambda>i. i + 4 + 2) [0, 1])"
proof -
  have b: "eligible_bases 3 1 [0] = [0, 1]" by code_simp
  have c: "fst (control_loop 3 [0] (0, [])) = 4" by code_simp
  have t: "pow2 (3 - 1 - 1) = 2" by code_simp
  have h: "(0::int) \<le> 1" "(1::int) < 3" "distinct [0::int]"
    "\<forall>c\<in>set [0::int]. 0 \<le> c \<and> c < 3 \<and> c \<noteq> 1"
    by simp_all
  from ApplyGate_writes_in_bounds_and_disjoint
         [OF h, of "[0, 1, 2, 3, 4, 5, 6, 7]" "(0, 1, 1, 0)"]
  show ?thesis unfolding Let_def b c t by simp
qed

section \<open>Unitary gates\<close>

lemma left_inverse_2x2:
  fixes a b c d e f g h :: complex
  assumes "a * e + b * g = 1" "a * f + b * h = 0" "c * e + d * g = 0" "c * f + d * h = 1"
  shows "e * a + f * c = 1" "e * b + f * d = 0" "g * a + h * c = 0" "g * b + h * d = 1"
  using assms by algebra+

lemma unitary_columns:
  assumes "unitary (g0, g1, g2, g3)"
  shows "cnj g0 * g0 + cnj g2 * g2 = 1" "cnj g0 * g1 + cnj g2 * g3 = 0"
        "cnj g1 * g0 + cnj g3 * g2 = 0" "cnj g1 * g1 + cnj g3 * g3 = 1"
proof -
  from assms have r: "g0 * cnj g0 + g1 * cnj g1 = 1" "g0 * cnj g2 + g1 * cnj g3 = 0"
    "g2 * cnj g0 + g3 * cnj g1 = 0" "g2 * cnj g2 + g3 * cnj g3 = 1"
    by (simp_all add: unitary_def)
  note l = left_inverse_2x2 [OF r]
  show "cnj g0 * g0 + cnj g2 * g2 = 1" by (rule l(1))
  show "cnj g0 * g1 + cnj g2 * g3 = 0" by (rule l(2))
  show "cnj g1 * g0 + cnj g3 * g2 = 0" by (rule l(3))
  show "cnj g1 * g1 + cnj g3 * g3 = 1" by (rule l(4))
qed

lemma unitary_pair_norm:
  assumes "unitary (g0, g1, g2, g3)"
  shows "(cmod (g0 * x + g1 * y))\<^sup>2 + (cmod (g2 * x + g3 * y))\<^sup>2 = (cmod x)\<^sup>2 + (cmod y)\<^sup>2"
proof -
  note c = unitary_columns [OF assms]
  have "(g0 * x + g1 * y) * cnj (g0 * x + g1 * y) + (g2 * x + g3 * y) * cnj (g2 * x + g3 * y)
        = (cnj g0 * g0 + cnj g2 * g2) * (x * cnj x) + (cnj g0 * g1 + cnj g2 * g3) * (cnj x * y)
        + (cnj g1 * g0 + cnj g3 * g2) * (x * cnj y) + (cnj g1 * g1 + cnj g3 * g3) * (y * cnj y)"
    by (simp add: algebra_simps)
  also have "\<dots> = x * cnj x + y * cnj y" by (simp add: c)
  finally have e: "(g0 * x + g1 * y) * cnj (g0 * x + g1 * y)
                   + (g2 * x + g3 * y) * cnj (g2 * x + g3 * y) = x * cnj x + y * cnj y" .
  have "complex_of_real ((cmod (g0 * x + g1 * y))\<^sup>2 + (cmod (g2 * x + g3 * y))\<^sup>2)
                = complex_of_real ((cmod x)\<^sup>2 + (cmod y)\<^sup>2)"
    unfolding of_real_add complex_norm_square by (rule e)
  then show ?thesis by (simp only: of_real_eq_iff)
qed


lemma norm_sq_update:
  assumes "k < length s"
  shows "norm_sq (s[k := v]) = norm_sq s - (cmod (s ! k))\<^sup>2 + (cmod v)\<^sup>2"
  using assms
proof (induction s arbitrary: k)
  case Nil
  then show ?case by simp
next
  case (Cons a s)
  then show ?case by (cases k) (simp_all add: norm_sq_def)
qed

lemma apply_pair_norm:
  assumes "unitary gate" "apply_pair gate i1 i2 s = Some s'" "i1 \<noteq> i2"
  shows "norm_sq s' = norm_sq s"
proof -
  obtain g0 g1 g2 g3 where g: "gate = (g0, g1, g2, g3)" by (cases gate) auto
  from assms(2) have r: "in_range s i1" "in_range s i2"
    by (auto simp: apply_pair_def g split: if_splits)
  then have k: "nat i1 < length s" "nat i2 < length s" "nat i1 \<noteq> nat i2"
    using assms(3) by (auto simp: in_range_def)
  from assms(2) have s': "s' = s[nat i1 := g0 * s ! nat i1 + g1 * s ! nat i2,
                                 nat i2 := g2 * s ! nat i1 + g3 * s ! nat i2]"
    unfolding g apply_pair_Some [OF r assms(3)] by simp
  show ?thesis
    unfolding s' using k unitary_pair_norm [OF assms(1) [unfolded g], of "s ! nat i1" "s ! nat i2"]
    by (simp add: norm_sq_update)
qed

lemma for_loop_pairs_norm:
  assumes "unitary gate" "\<forall>i\<in>set is. f i \<noteq> h i"
      and "for_loop is (\<lambda>i. apply_pair gate (f i) (h i)) s = Some s'"
  shows "norm_sq s' = norm_sq s"
  using assms(2,3)
proof (induction "is" arbitrary: s)
  case Nil
  then show ?case by simp
next
  case (Cons i "is")
  from Cons.prems(2) obtain s1 where s1: "apply_pair gate (f i) (h i) s = Some s1"
    and rest: "for_loop is (\<lambda>i. apply_pair gate (f i) (h i)) s1 = Some s'"
    by (auto split: option.splits)
  have "norm_sq s1 = norm_sq s"
    using apply_pair_norm [OF assms(1) s1] Cons.prems(1) by simp
  moreover have "norm_sq s' = norm_sq s1" using Cons.IH [OF _ rest] Cons.prems(1) by simp
  ultimately show ?case by simp
qed

section \<open>ApplyGate: norm, inverse and the order of the controls\<close>

lemma bit_clear_add_exp_less:
  assumes "0 \<le> (j::int)" "j < 2 ^ n" "p < n" "\<not> bit j p"
  shows "j + 2 ^ p < 2 ^ n"
proof -
  have "(2::int) ^ p < 2 ^ n" using assms(3) by simp
  with assms(1,2) have "j OR 2 ^ p < 2 ^ n" by (rule OR_upper)
  then show ?thesis by (simp add: add_exp_eq_or [OF assms(4)])
qed

text \<open>
  Claim C4. For a unitary gate, a valid target and valid controls, the call returns and
  the sum of the squared magnitudes of the amplitudes after the call equals the sum before.
\<close>
theorem ApplyGate_preserves_norm:
  assumes "0 \<le> target" and "target < nqubits"
      and "distinct controls"
      and "\<forall>c\<in>set controls. 0 \<le> c \<and> c < nqubits \<and> c \<noteq> target"
      and "length state = 2 ^ nat nqubits"
      and "unitary gate"
  shows "\<exists>new. ApplyGateFunctor state gate nqubits target controls = Some new
           \<and> norm_sq new = norm_sq state"
proof -
  obtain g0 g1 g2 g3 where g: "gate = (g0, g1, g2, g3)" by (cases gate) auto
  have cs1: "\<forall>c\<in>set controls. c < nqubits" using assms(4) by auto
  from apply_gate_pointwise [OF assms(1-5), of g0 g1 g2 g3] obtain new where
    run: "ApplyGateFunctor state gate nqubits target controls = Some new"
    unfolding g by blast
  have ne: "\<forall>i\<in>set (eligible_bases nqubits target controls).
              i + fst (control_loop nqubits controls (0, []))
              \<noteq> i + fst (control_loop nqubits controls (0, [])) + pow2 (nqubits - target - 1)"
    using assms(2) by (simp add: pow2_nonneg_arg)
  have "norm_sq new = norm_sq state"
    by (rule for_loop_pairs_norm [OF assms(6) ne])
       (use run in \<open>simp only: ApplyGateFunctor_eq [OF assms(1,2) cs1]\<close>)
  with run show ?thesis by simp
qed

theorem ApplyGate_preserves_norm_witness:
  "\<exists>new. ApplyGateFunctor [3, 4, 0, 0] (0, - \<i>, \<i>, 0) 2 1 [0] = Some new
      \<and> norm_sq new = norm_sq [3, 4, 0, 0]"
  by (rule ApplyGate_preserves_norm) (simp_all add: unitary_def)

text \<open>
  Claim C7. For a unitary gate, applying the gate and then its conjugate transpose, with
  the same target and controls, gives back the original state vector, in exact complex
  arithmetic.
\<close>
theorem ApplyGate_dagger_restores:
  assumes "0 \<le> target" and "target < nqubits"
      and "distinct controls"
      and "\<forall>c\<in>set controls. 0 \<le> c \<and> c < nqubits \<and> c \<noteq> target"
      and "length state = 2 ^ nat nqubits"
      and "unitary gate"
  shows "\<exists>mid. ApplyGateFunctor state gate nqubits target controls = Some mid
           \<and> ApplyGateFunctor mid (dagger gate) nqubits target controls = Some state"
proof -
  obtain g0 g1 g2 g3 where g: "gate = (g0, g1, g2, g3)" by (cases gate) auto
  have dg: "dagger gate = (cnj g0, cnj g2, cnj g1, cnj g3)" by (simp add: g dagger_def)
  note col = unitary_columns [OF assms(6) [unfolded g]]
  let ?T = "(2::int) ^ nat (nqubits - target - 1)"
  let ?tp = "nat (nqubits - target - 1)"
  let ?C = "\<lambda>j. \<forall>c\<in>set controls. bit j (nat (nqubits - c - 1))"
  have tp: "?tp < nat nqubits" using assms(1,2) by linarith
  have cpos: "nat (nqubits - c - 1) \<noteq> ?tp" if "c \<in> set controls" for c
    using that assms(1,2,4) by auto
  from apply_gate_pointwise [OF assms(1-5), of g0 g1 g2 g3] obtain mid where
    run1: "ApplyGateFunctor state gate nqubits target controls = Some mid"
    and len1: "length mid = length state"
    and pt1: "\<And>j. 0 \<le> j \<Longrightarrow> j < 2 ^ nat nqubits \<Longrightarrow>
               mid ! nat j =
                 (if ?C j then
                    if bit j ?tp
                    then g2 * state ! nat (j - ?T) + g3 * state ! nat j
                    else g0 * state ! nat j + g1 * state ! nat (j + ?T)
                  else state ! nat j)"
    unfolding g by blast
  have lenm: "length mid = 2 ^ nat nqubits" using len1 assms(5) by simp
  from apply_gate_pointwise [OF assms(1-4) lenm, of "cnj g0" "cnj g2" "cnj g1" "cnj g3"]
  obtain fin where
    run2: "ApplyGateFunctor mid (dagger gate) nqubits target controls = Some fin"
    and len2: "length fin = length mid"
    and pt2: "\<And>j. 0 \<le> j \<Longrightarrow> j < 2 ^ nat nqubits \<Longrightarrow>
               fin ! nat j =
                 (if ?C j then
                    if bit j ?tp
                    then cnj g1 * mid ! nat (j - ?T) + cnj g3 * mid ! nat j
                    else cnj g0 * mid ! nat j + cnj g2 * mid ! nat (j + ?T)
                  else mid ! nat j)"
    unfolding dg by blast
  have "fin ! k = state ! k" if k: "k < length state" for k
  proof -
    define j where "j = int k"
    have j: "0 \<le> j" "j < 2 ^ nat nqubits" "nat j = k"
      using k assms(5) by (simp_all add: j_def)
    show ?thesis
    proof (cases "?C j")
      case False
      then show ?thesis using pt1 [OF j(1,2)] pt2 [OF j(1,2)] j(3) by auto
    next
      case C: True
      show ?thesis
      proof (cases "bit j ?tp")
        case False
        let ?j2 = "j + ?T"
        have j2: "0 \<le> ?j2" "?j2 < 2 ^ nat nqubits"
          using j bit_clear_add_exp_less [OF j(1,2) tp False] by simp_all
        have b2: "bit ?j2 ?tp" by (simp add: bit_add_exp [OF False])
        have C2: "?C ?j2" using C by (simp add: bit_add_exp [OF False])
        have m1: "mid ! nat j = g0 * state ! nat j + g1 * state ! nat ?j2"
          using pt1 [OF j(1,2)] C False by simp
        have m2: "mid ! nat ?j2 = g2 * state ! nat j + g3 * state ! nat ?j2"
          using pt1 [OF j2] C2 b2 by simp
        have "fin ! nat j = cnj g0 * mid ! nat j + cnj g2 * mid ! nat ?j2"
          using pt2 [OF j(1,2)] C False by simp
        also have "\<dots> = (cnj g0 * g0 + cnj g2 * g2) * state ! nat j
                        + (cnj g0 * g1 + cnj g2 * g3) * state ! nat ?j2"
          unfolding m1 m2 by (simp add: algebra_simps)
        also have "\<dots> = state ! nat j" by (simp add: col)
        finally show ?thesis using j(3) by simp
      next
        case True
        let ?j1 = "j - ?T"
        have j1: "0 \<le> ?j1" "?j1 < 2 ^ nat nqubits"
        proof -
          show "0 \<le> ?j1" by (rule sub_exp_nonneg [OF True j(1)])
          have "?j1 \<le> j" by simp
          with j(2) show "?j1 < 2 ^ nat nqubits" by linarith
        qed
        have b1: "\<not> bit ?j1 ?tp" by (simp add: bit_sub_exp [OF True])
        have C1: "?C ?j1" using C cpos by (simp add: bit_sub_exp [OF True])
        have m1: "mid ! nat ?j1 = g0 * state ! nat ?j1 + g1 * state ! nat j"
          using pt1 [OF j1] C1 b1 by simp
        have m2: "mid ! nat j = g2 * state ! nat ?j1 + g3 * state ! nat j"
          using pt1 [OF j(1,2)] C True by simp
        have "fin ! nat j = cnj g1 * mid ! nat ?j1 + cnj g3 * mid ! nat j"
          using pt2 [OF j(1,2)] C True by simp
        also have "\<dots> = (cnj g1 * g0 + cnj g3 * g2) * state ! nat ?j1
                        + (cnj g1 * g1 + cnj g3 * g3) * state ! nat j"
          unfolding m1 m2 by (simp add: algebra_simps)
        also have "\<dots> = state ! nat j" by (simp add: col)
        finally show ?thesis using j(3) by simp
      qed
    qed
  qed
  then have "fin = state" using len1 len2 by (intro nth_equalityI) simp_all
  with run1 run2 show ?thesis by simp
qed

theorem ApplyGate_dagger_restores_witness:
  "\<exists>mid. ApplyGateFunctor [3, 4, 5, 6] (0, - \<i>, \<i>, 0) 2 1 [0] = Some mid
      \<and> ApplyGateFunctor mid (dagger (0, - \<i>, \<i>, 0)) 2 1 [0] = Some [3, 4, 5, 6]"
  by (rule ApplyGate_dagger_restores) (simp_all add: unitary_def)

lemma control_loop_mset:
  assumes "mset cs' = mset cs"
  shows "control_loop n cs' (0, []) = control_loop n cs (0, [])"
proof -
  have "mset (map (\<lambda>c. pow2 (n - c - 1)) cs') = mset (map (\<lambda>c. pow2 (n - c - 1)) cs)"
    using assms by simp
  then have "(\<Sum>c\<leftarrow>cs'. pow2 (n - c - 1)) = (\<Sum>c\<leftarrow>cs. pow2 (n - c - 1))"
    by (metis sum_mset_sum_list)
  then have f: "fst (control_loop n cs' (0, [])) = fst (control_loop n cs (0, []))"
    by (simp add: control_loop_fst)
  have "set cs' = set cs" using assms by (metis set_mset_mset)
  then have "set (snd (control_loop n cs' (0, []))) = set (snd (control_loop n cs (0, [])))"
    by (simp add: control_loop_snd_set)
  then have "snd (control_loop n cs' (0, [])) = snd (control_loop n cs (0, []))"
    using control_loop_snd_sorted [of "[]" n cs' 0] control_loop_snd_sorted [of "[]" n cs 0]
    by (intro sorted_distinct_set_unique) simp_all
  with f show ?thesis by (simp add: prod_eq_iff)
qed

text \<open>
  Claim C8. For distinct valid controls, the call with any permutation of the control
  array returns the same state as the call with the original array.
\<close>
theorem ApplyGate_control_order_irrelevant:
  assumes "0 \<le> target" and "target < nqubits"
      and "distinct controls"
      and "\<forall>c\<in>set controls. 0 \<le> c \<and> c < nqubits \<and> c \<noteq> target"
      and "length state = 2 ^ nat nqubits"
      and "mset controls' = mset controls"
  shows "\<exists>new. ApplyGateFunctor state gate nqubits target controls = Some new
           \<and> ApplyGateFunctor state gate nqubits target controls' = Some new"
proof -
  obtain g0 g1 g2 g3 where g: "gate = (g0, g1, g2, g3)" by (cases gate) auto
  from apply_gate_pointwise [OF assms(1-5), of g0 g1 g2 g3] obtain new where
    run: "ApplyGateFunctor state gate nqubits target controls = Some new"
    unfolding g by blast
  have "ApplyGateFunctor state gate nqubits target controls'
        = ApplyGateFunctor state gate nqubits target controls"
    by (simp add: ApplyGateFunctor_def control_loop_mset [OF assms(6)])
  with run show ?thesis by simp
qed

theorem ApplyGate_control_order_irrelevant_witness:
  "\<exists>new. ApplyGateFunctor [0, 1, 2, 3, 4, 5, 6, 7] (0, 1, 1, 0) 3 1 [0, 2] = Some new
      \<and> ApplyGateFunctor [0, 1, 2, 3, 4, 5, 6, 7] (0, 1, 1, 0) 3 1 [2, 0] = Some new"
  by (rule ApplyGate_control_order_irrelevant) simp_all

section \<open>SwapPieces\<close>

lemma shl1_nonneg: "0 \<le> e \<Longrightarrow> shl1 e = Some (2 ^ nat e)"
  by (simp add: shl1_def)

lemma bit_nonneg_less_exp:
  assumes "0 \<le> (x::int)" "x < 2 ^ n" "bit x p"
  shows "p < n"
  using high_bits_clear [OF assms(1,2), of p] assms(3) by (cases "p < n") simp_all

lemma swap_index_eq_or:
  assumes "0 \<le> m"
  shows "swap_index m (2 ^ nat m) g
         = push_bit (Suc (nat m)) (drop_bit (nat m) g) OR take_bit (nat m) g"
proof -
  have s: "nat (m + 1) = Suc (nat m)" using assms by simp
  have a: "g AND (2 ^ nat m - 1) = take_bit (nat m) g"
    by (simp add: take_bit_eq_mask mask_eq_exp_minus_1)
  have "push_bit (Suc (nat m)) (drop_bit (nat m) g) + take_bit (nat m) g
        = push_bit (Suc (nat m)) (drop_bit (nat m) g) OR take_bit (nat m) g"
    by (rule disjunctive_add) (auto simp: bit_push_bit_iff bit_take_bit_iff simp del: push_bit_Suc)
  then show ?thesis by (simp add: swap_index_def s a del: push_bit_Suc)
qed

lemma bit_swap_index:
  assumes "0 \<le> m"
  shows "bit (swap_index m (2 ^ nat m) g) q
         \<longleftrightarrow> (if q < nat m then bit g q else q \<noteq> nat m \<and> bit g (q - 1))"
proof -
  have "nat m + (q - Suc (nat m)) = q - 1" if "Suc (nat m) \<le> q" using that by simp
  then show ?thesis
    unfolding swap_index_eq_or [OF assms]
    by (auto simp: bit_or_iff bit_push_bit_iff bit_take_bit_iff bit_drop_bit_eq
          simp del: push_bit_Suc)
qed

lemma swap_index_nonneg:
  assumes "0 \<le> m" "0 \<le> g"
  shows "0 \<le> swap_index m (2 ^ nat m) g"
  unfolding swap_index_eq_or [OF assms(1)] using assms(2) by simp

lemma swap_index_inj:
  assumes "0 \<le> m" "swap_index m (2 ^ nat m) g = swap_index m (2 ^ nat m) g'"
  shows "g = g'"
proof (rule bit_eqI)
  fix q
  show "bit g q = bit g' q"
  proof (cases "q < nat m")
    case True
    then show ?thesis
      using bit_swap_index [OF assms(1), of g q] bit_swap_index [OF assms(1), of g' q] assms(2)
      by simp
  next
    case False
    then show ?thesis
      using bit_swap_index [OF assms(1), of g "Suc q"] bit_swap_index [OF assms(1), of g' "Suc q"]
        assms(2)
      by simp
  qed
qed

lemma swap_index_upper:
  assumes "0 \<le> m" "m < n" "0 \<le> g" "g < 2 ^ nat (n - 1)"
  shows "swap_index m (2 ^ nat m) g + 2 ^ nat m < 2 ^ nat n"
proof -
  let ?i = "swap_index m (2 ^ nat m) g"
  have nb: "\<not> bit ?i (nat m)" by (simp add: bit_swap_index [OF assms(1)])
  show ?thesis
  proof (rule int_less_exp_if_bits)
    show "0 \<le> ?i + 2 ^ nat m" using swap_index_nonneg [OF assms(1,3)] by simp
  next
    fix p assume "bit (?i + 2 ^ nat m) p"
    then consider "p = nat m" | "p < nat m" "bit g p" | "nat m < p" "bit g (p - 1)"
      by (auto simp: bit_add_exp [OF nb] bit_swap_index [OF assms(1)] split: if_splits)
    then show "p < nat n"
    proof cases
      case 1
      then show ?thesis using assms(1,2) by linarith
    next
      case 2
      then show ?thesis using assms(1,2) by linarith
    next
      case 3
      from bit_nonneg_less_exp [OF assms(3,4) 3(2)] have "p - 1 < nat (n - 1)" .
      then show ?thesis using 3(1) by linarith
    qed
  qed
qed

lemma swap_loop:
  assumes "distinct (map f gs)"
      and "\<forall>g\<in>set gs. 0 \<le> f g \<and> in_range p0 (f g + tk) \<and> in_range p1 (f g)"
  shows "\<exists>q0 q1. for_loop gs (\<lambda>g. swap_entries (f g + tk) (f g)) (p0, p1) = Some (q0, q1)
           \<and> length q0 = length p0 \<and> length q1 = length p1
           \<and> (\<forall>g\<in>set gs. q0 ! nat (f g + tk) = p1 ! nat (f g)
                          \<and> q1 ! nat (f g) = p0 ! nat (f g + tk))
           \<and> (\<forall>j. 0 \<le> j \<and> j \<notin> (\<lambda>g. f g + tk) ` set gs \<longrightarrow> q0 ! nat j = p0 ! nat j)
           \<and> (\<forall>i. 0 \<le> i \<and> i \<notin> f ` set gs \<longrightarrow> q1 ! nat i = p1 ! nat i)"
  using assms
proof (induction gs arbitrary: p0 p1)
  case Nil
  then show ?case by simp
next
  case (Cons g gs)
  let ?i = "f g" and ?j = "f g + tk"
  from Cons.prems(2) have r: "0 \<le> ?i" "in_range p0 ?j" "in_range p1 ?i" by auto
  then have nn: "0 \<le> ?j" by (simp add: in_range_def)
  define a0 where "a0 = p0[nat ?j := p1 ! nat ?i]"
  define a1 where "a1 = p1[nat ?i := p0 ! nat ?j]"
  have step: "swap_entries ?j ?i (p0, p1) = Some (a0, a1)"
    using r by (simp add: swap_entries_def a0_def a1_def)
  have fresh: "?i \<notin> f ` set gs" "?j \<notin> (\<lambda>g. f g + tk) ` set gs"
    using Cons.prems(1) by auto
  have d: "distinct (map f gs)" using Cons.prems(1) by simp
  have rr: "\<forall>g\<in>set gs. 0 \<le> f g \<and> in_range a0 (f g + tk) \<and> in_range a1 (f g)"
    using Cons.prems(2) by (simp add: in_range_def a0_def a1_def)
  from Cons.IH [OF d rr] obtain q0 q1 where
    run: "for_loop gs (\<lambda>g. swap_entries (f g + tk) (f g)) (a0, a1) = Some (q0, q1)"
    and len: "length q0 = length a0" "length q1 = length a1"
    and sw: "\<forall>g\<in>set gs. q0 ! nat (f g + tk) = a1 ! nat (f g)
                        \<and> q1 ! nat (f g) = a0 ! nat (f g + tk)"
    and k0: "\<forall>j. 0 \<le> j \<and> j \<notin> (\<lambda>g. f g + tk) ` set gs \<longrightarrow> q0 ! nat j = a0 ! nat j"
    and k1: "\<forall>i. 0 \<le> i \<and> i \<notin> f ` set gs \<longrightarrow> q1 ! nat i = a1 ! nat i"
    by blast
  have a0_other: "a0 ! nat j = p0 ! nat j" if "0 \<le> j" "j \<noteq> ?j" for j
    using that nn by (simp add: a0_def)
  have a1_other: "a1 ! nat i = p1 ! nat i" if "0 \<le> i" "i \<noteq> ?i" for i
    using that r(1) by (simp add: a1_def)
  have kk: "nat ?j < length p0" "nat ?i < length p1"
    using r nn by (auto simp: in_range_def nat_less_iff)
  have a0_at: "a0 ! nat ?j = p1 ! nat ?i" using kk by (simp add: a0_def)
  have a1_at: "a1 ! nat ?i = p0 ! nat ?j" using kk by (simp add: a1_def)
  have "for_loop (g # gs) (\<lambda>g. swap_entries (f g + tk) (f g)) (p0, p1) = Some (q0, q1)"
    using step run by simp
  moreover have "length q0 = length p0" "length q1 = length p1"
    using len by (simp_all add: a0_def a1_def)
  moreover have "q0 ! nat (f x + tk) = p1 ! nat (f x) \<and> q1 ! nat (f x) = p0 ! nat (f x + tk)"
    if x: "x \<in> set (g # gs)" for x
  proof (cases "x = g")
    case True
    then show ?thesis using k0 k1 fresh nn r(1) a0_at a1_at by simp
  next
    case False
    with x have xs: "x \<in> set gs" by simp
    then have "f x \<in> f ` set gs" by (rule imageI)
    with fresh(1) have ne: "f x \<noteq> ?i" by metis
    from xs Cons.prems(2) have x0: "0 \<le> f x" "0 \<le> f x + tk" by (auto simp: in_range_def)
    show ?thesis using sw xs a0_other [OF x0(2)] a1_other [OF x0(1)] ne by simp
  qed
  moreover have "q0 ! nat j = p0 ! nat j"
    if "0 \<le> j" "j \<notin> (\<lambda>g. f g + tk) ` set (g # gs)" for j
    using that k0 a0_other by simp
  moreover have "q1 ! nat i = p1 ! nat i" if "0 \<le> i" "i \<notin> f ` set (g # gs)" for i
    using that k1 a1_other by simp
  ultimately show ?case by blast
qed

lemma SwapPieces_accesses:
  assumes "0 \<le> new_global" "new_global < nqubits"
      and "2 ^ nat nqubits \<le> length piece0" "2 ^ nat nqubits \<le> length piece1"
      and "g \<in> set [0..2 ^ nat (nqubits - 1) - 1]"
  defines "m \<equiv> nqubits - new_global - 1"
  shows "0 \<le> swap_index m (2 ^ nat m) g"
    and "in_range piece0 (swap_index m (2 ^ nat m) g + 2 ^ nat m)"
    and "in_range piece1 (swap_index m (2 ^ nat m) g)"
proof -
  have m: "0 \<le> m" "m < nqubits" using assms(1,2) by (simp_all add: m_def)
  from assms(5) have g: "0 \<le> g" "g < 2 ^ nat (nqubits - 1)" by simp_all
  show i0: "0 \<le> swap_index m (2 ^ nat m) g" by (rule swap_index_nonneg [OF m(1) g(1)])
  have up: "swap_index m (2 ^ nat m) g + 2 ^ nat m < 2 ^ nat nqubits"
    by (rule swap_index_upper [OF m g])
  have l0: "(2::int) ^ nat nqubits \<le> int (length piece0)"
    using assms(3) by (metis of_nat_le_iff of_nat_numeral of_nat_power)
  have l1: "(2::int) ^ nat nqubits \<le> int (length piece1)"
    using assms(4) by (metis of_nat_le_iff of_nat_numeral of_nat_power)
  have tkpos: "(0::int) < 2 ^ nat m" by simp
  show "in_range piece0 (swap_index m (2 ^ nat m) g + 2 ^ nat m)"
    unfolding in_range_def using i0 up l0 tkpos by linarith
  show "in_range piece1 (swap_index m (2 ^ nat m) g)"
    unfolding in_range_def using i0 up l1 tkpos by linarith
qed

lemma swap_loop_in_range:
  assumes "for_loop gs (\<lambda>g. swap_entries (f g + tk) (f g)) (p0, p1) = Some r"
  shows "\<forall>g\<in>set gs. in_range p0 (f g + tk) \<and> in_range p1 (f g)"
  using assms
proof (induction gs arbitrary: p0 p1)
  case Nil
  then show ?case by simp
next
  case (Cons g gs)
  from Cons.prems obtain a0 a1 where
    step: "swap_entries (f g + tk) (f g) (p0, p1) = Some (a0, a1)"
    and rest: "for_loop gs (\<lambda>g. swap_entries (f g + tk) (f g)) (a0, a1) = Some r"
    by (auto split: option.splits)
  from step have here: "in_range p0 (f g + tk)" "in_range p1 (f g)"
    and len: "length a0 = length p0" "length a1 = length p1"
    by (auto simp: swap_entries_def split: if_splits)
  from Cons.IH [OF rest] len have "\<forall>g\<in>set gs. in_range p0 (f g + tk) \<and> in_range p1 (f g)"
    by (simp add: in_range_def)
  with here show ?case by simp
qed

lemma SwapPieces_run:
  assumes "0 \<le> new_global" "new_global < nqubits"
  defines "m \<equiv> nqubits - new_global - 1"
  defines "f \<equiv> swap_index m (2 ^ nat m)"
  defines "gs \<equiv> [0..2 ^ nat (nqubits - 1) - 1]"
  assumes inr: "\<forall>g\<in>set gs. in_range piece0 (f g + 2 ^ nat m) \<and> in_range piece1 (f g)"
  shows "\<exists>q0 q1. SwapPiecesFunctor piece0 piece1 new_global nqubits = Some (q0, q1)
           \<and> length q0 = length piece0 \<and> length q1 = length piece1
           \<and> (\<forall>g\<in>set gs. q0 ! nat (f g + 2 ^ nat m) = piece1 ! nat (f g)
                          \<and> q1 ! nat (f g) = piece0 ! nat (f g + 2 ^ nat m))
           \<and> (\<forall>j. 0 \<le> j \<and> j \<notin> (\<lambda>g. f g + 2 ^ nat m) ` set gs \<longrightarrow> q0 ! nat j = piece0 ! nat j)
           \<and> (\<forall>i. 0 \<le> i \<and> i \<notin> f ` set gs \<longrightarrow> q1 ! nat i = piece1 ! nat i)"
proof -
  have m: "0 \<le> m" "m < nqubits" using assms(1,2) by (simp_all add: m_def)
  have n1: "0 \<le> nqubits - 1" using assms(1,2) by simp
  have run: "SwapPiecesFunctor piece0 piece1 new_global nqubits
             = for_loop gs (\<lambda>g. swap_entries (f g + 2 ^ nat m) (f g)) (piece0, piece1)"
    using m(1) n1
    by (simp add: SwapPiecesFunctor_def Let_def shl1_nonneg m_def [symmetric] f_def gs_def)
  have "inj_on f (set gs)"
    unfolding f_def by (rule inj_onI) (rule swap_index_inj [OF m(1)])
  then have d: "distinct (map f gs)" by (simp add: distinct_map gs_def)
  have "0 \<le> f g" if "g \<in> set gs" for g
    unfolding f_def using that by (intro swap_index_nonneg [OF m(1)]) (simp add: gs_def)
  with inr have r: "\<forall>g\<in>set gs. 0 \<le> f g \<and> in_range piece0 (f g + 2 ^ nat m) \<and> in_range piece1 (f g)"
    by blast
  show ?thesis unfolding run by (rule swap_loop [OF d r])
qed

lemma SwapPieces_Some_in_range:
  assumes "0 \<le> new_global" "new_global < nqubits"
      and "SwapPiecesFunctor piece0 piece1 new_global nqubits = Some r"
  defines "m \<equiv> nqubits - new_global - 1"
  shows "\<forall>g\<in>set [0..2 ^ nat (nqubits - 1) - 1].
           in_range piece0 (swap_index m (2 ^ nat m) g + 2 ^ nat m)
           \<and> in_range piece1 (swap_index m (2 ^ nat m) g)"
proof -
  have m: "0 \<le> m" using assms(1,2) by (simp add: m_def)
  have n1: "0 \<le> nqubits - 1" using assms(1,2) by simp
  have "for_loop [0..2 ^ nat (nqubits - 1) - 1]
          (\<lambda>g. swap_entries (swap_index m (2 ^ nat m) g + 2 ^ nat m) (swap_index m (2 ^ nat m) g))
          (piece0, piece1) = Some r"
    using assms(3) m n1
    by (simp add: SwapPiecesFunctor_def Let_def shl1_nonneg m_def [symmetric])
  then show ?thesis by (rule swap_loop_in_range)
qed

lemma SwapPieces_long_in_range:
  assumes "0 \<le> new_global" "new_global < nqubits"
      and "2 ^ nat nqubits \<le> length piece0" "2 ^ nat nqubits \<le> length piece1"
  defines "m \<equiv> nqubits - new_global - 1"
  shows "\<forall>g\<in>set [0..2 ^ nat (nqubits - 1) - 1].
           in_range piece0 (swap_index m (2 ^ nat m) g + 2 ^ nat m)
           \<and> in_range piece1 (swap_index m (2 ^ nat m) g)"
  unfolding m_def using SwapPieces_accesses [OF assms(1-4)] by blast

text \<open>
  Claim C3, as stated, fails: with both pieces of length \<open>2 ^ (nqubits - 1)\<close> the first
  round of the call with \<open>nqubits = 2\<close> and \<open>new_global = 0\<close> reads \<open>piece0[2]\<close>, outside
  a buffer of two amplitudes.
\<close>
theorem SwapPieces_half_length_faults:
  "length [1, 2 :: complex] = 2 ^ nat (2 - 1)
   \<and> \<not> in_range [1, 2 :: complex]
         (swap_index (2 - 0 - 1) (2 ^ nat (2 - 0 - 1)) 0 + 2 ^ nat (2 - 0 - 1))
   \<and> SwapPiecesFunctor [1, 2 :: complex] [3, 4] 0 2 = None"
  by (simp add: SwapPiecesFunctor_def shl1_def swap_index_def swap_entries_def in_range_def
        upto.simps)

text \<open>
  Claim C3, amended. For pieces of length \<open>2 ^ nqubits\<close> each and \<open>0 \<le> new_global < nqubits\<close>,
  every access of the call, \<open>piece0[i + tk]\<close> and \<open>piece1[i]\<close> for every \<open>g\<close> below
  \<open>2 ^ (nqubits - 1)\<close>, has an index below \<open>2 ^ nqubits\<close> and inside its buffer, and the call
  returns.
\<close>
theorem SwapPieces_accesses_in_bounds:
  assumes "0 \<le> new_global" and "new_global < nqubits"
      and "length piece0 = 2 ^ nat nqubits" and "length piece1 = 2 ^ nat nqubits"
  shows "(\<forall>g\<in>set [0..2 ^ nat (nqubits - 1) - 1].
            let m = nqubits - new_global - 1; tk = 2 ^ nat m; i = swap_index m tk g
            in 0 \<le> i \<and> i + tk < 2 ^ nat nqubits
               \<and> in_range piece0 (i + tk) \<and> in_range piece1 i)
       \<and> (\<exists>q0 q1. SwapPiecesFunctor piece0 piece1 new_global nqubits = Some (q0, q1))"
proof -
  have l: "2 ^ nat nqubits \<le> length piece0" "2 ^ nat nqubits \<le> length piece1"
    using assms(3,4) by simp_all
  let ?m = "nqubits - new_global - 1"
  have m: "0 \<le> ?m" "?m < nqubits" using assms(1,2) by simp_all
  have "0 \<le> swap_index ?m (2 ^ nat ?m) g
        \<and> swap_index ?m (2 ^ nat ?m) g + 2 ^ nat ?m < 2 ^ nat nqubits
        \<and> in_range piece0 (swap_index ?m (2 ^ nat ?m) g + 2 ^ nat ?m)
        \<and> in_range piece1 (swap_index ?m (2 ^ nat ?m) g)"
    if g: "g \<in> set [0..2 ^ nat (nqubits - 1) - 1]" for g
  proof -
    from g have g': "0 \<le> g" "g < 2 ^ nat (nqubits - 1)" by simp_all
    show ?thesis
      using SwapPieces_accesses [OF assms(1,2) l g] swap_index_upper [OF m g'] by simp
  qed
  moreover have "\<exists>q0 q1. SwapPiecesFunctor piece0 piece1 new_global nqubits = Some (q0, q1)"
    using SwapPieces_run [OF assms(1,2) SwapPieces_long_in_range [OF assms(1,2) l]] by blast
  ultimately show ?thesis by (simp add: Let_def)
qed

theorem SwapPieces_accesses_in_bounds_witness:
  "swap_index 1 2 1 + 2 = 3
   \<and> in_range [1, 2, 3, 4 :: complex] (swap_index 1 2 1 + 2)
   \<and> in_range [5, 6, 7, 8 :: complex] (swap_index 1 2 1)
   \<and> (\<exists>q0 q1. SwapPiecesFunctor [1, 2, 3, 4 :: complex] [5, 6, 7, 8] 0 2 = Some (q0, q1))"
proof -
  have h: "(0::int) \<le> 0" "(0::int) < 2"
    "length [1, 2, 3, 4 :: complex] = 2 ^ nat 2" "length [5, 6, 7, 8 :: complex] = 2 ^ nat 2"
    by simp_all
  have g: "(1::int) \<in> set [0..2 ^ nat (2 - 1) - 1]" by simp
  note t = SwapPieces_accesses_in_bounds [OF h, unfolded Let_def]
  from t have e: "\<exists>q0 q1. SwapPiecesFunctor [1, 2, 3, 4 :: complex] [5, 6, 7, 8] 0 2 = Some (q0, q1)"
    by (rule conjunct2)
  from t have "\<forall>g\<in>set [0..2 ^ nat (2 - 1) - 1].
      0 \<le> swap_index (2 - 0 - 1) (2 ^ nat (2 - 0 - 1)) g
      \<and> swap_index (2 - 0 - 1) (2 ^ nat (2 - 0 - 1)) g + 2 ^ nat (2 - 0 - 1) < 2 ^ nat 2
      \<and> in_range [1, 2, 3, 4 :: complex]
           (swap_index (2 - 0 - 1) (2 ^ nat (2 - 0 - 1)) g + 2 ^ nat (2 - 0 - 1))
      \<and> in_range [5, 6, 7, 8 :: complex] (swap_index (2 - 0 - 1) (2 ^ nat (2 - 0 - 1)) g)"
    by (rule conjunct1)
  from bspec [OF this g]
  have "in_range [1, 2, 3, 4 :: complex] (swap_index 1 2 1 + 2)
        \<and> in_range [5, 6, 7, 8 :: complex] (swap_index 1 2 1)"
    by simp
  moreover have "swap_index 1 2 1 + 2 = 3" by (simp add: swap_index_def)
  ultimately show ?thesis using e by blast
qed

lemma SwapPieces_twice:
  assumes "0 \<le> new_global" and "new_global < nqubits"
      and inr: "\<forall>g\<in>set [0..2 ^ nat (nqubits - 1) - 1].
           in_range piece0 (swap_index (nqubits - new_global - 1) (2 ^ nat (nqubits - new_global - 1)) g
                            + 2 ^ nat (nqubits - new_global - 1))
           \<and> in_range piece1 (swap_index (nqubits - new_global - 1) (2 ^ nat (nqubits - new_global - 1)) g)"
  shows "\<exists>q0 q1. SwapPiecesFunctor piece0 piece1 new_global nqubits = Some (q0, q1)
           \<and> SwapPiecesFunctor q0 q1 new_global nqubits = Some (piece0, piece1)"
proof -
  define m where "m = nqubits - new_global - 1"
  define f where "f = swap_index m (2 ^ nat m)"
  define gs :: "int list" where "gs = [0..2 ^ nat (nqubits - 1) - 1]"
  let ?tk = "(2::int) ^ nat m"
  from SwapPieces_run [OF assms, folded m_def, folded f_def gs_def] obtain q0 q1 where
    run1: "SwapPiecesFunctor piece0 piece1 new_global nqubits = Some (q0, q1)"
    and len1: "length q0 = length piece0" "length q1 = length piece1"
    and sw1: "\<And>g. g \<in> set gs \<Longrightarrow> q0 ! nat (f g + ?tk) = piece1 ! nat (f g)
                                 \<and> q1 ! nat (f g) = piece0 ! nat (f g + ?tk)"
    and k10: "\<And>j. 0 \<le> j \<Longrightarrow> j \<notin> (\<lambda>g. f g + ?tk) ` set gs \<Longrightarrow> q0 ! nat j = piece0 ! nat j"
    and k11: "\<And>i. 0 \<le> i \<Longrightarrow> i \<notin> f ` set gs \<Longrightarrow> q1 ! nat i = piece1 ! nat i"
    by blast
  have inr2: "\<forall>g\<in>set [0..2 ^ nat (nqubits - 1) - 1].
           in_range q0 (swap_index (nqubits - new_global - 1) (2 ^ nat (nqubits - new_global - 1)) g
                            + 2 ^ nat (nqubits - new_global - 1))
           \<and> in_range q1 (swap_index (nqubits - new_global - 1) (2 ^ nat (nqubits - new_global - 1)) g)"
    using inr len1 by (simp add: in_range_def)
  from SwapPieces_run [OF assms(1,2) inr2, folded m_def, folded f_def gs_def] obtain r0 r1 where
    run2: "SwapPiecesFunctor q0 q1 new_global nqubits = Some (r0, r1)"
    and len2: "length r0 = length q0" "length r1 = length q1"
    and sw2: "\<And>g. g \<in> set gs \<Longrightarrow> r0 ! nat (f g + ?tk) = q1 ! nat (f g)
                                 \<and> r1 ! nat (f g) = q0 ! nat (f g + ?tk)"
    and k20: "\<And>j. 0 \<le> j \<Longrightarrow> j \<notin> (\<lambda>g. f g + ?tk) ` set gs \<Longrightarrow> r0 ! nat j = q0 ! nat j"
    and k21: "\<And>i. 0 \<le> i \<Longrightarrow> i \<notin> f ` set gs \<Longrightarrow> r1 ! nat i = q1 ! nat i"
    by blast
  have "r0 ! k = piece0 ! k" for k
  proof (cases "int k \<in> (\<lambda>g. f g + ?tk) ` set gs")
    case True
    then obtain g where g: "g \<in> set gs" "int k = f g + ?tk" by auto
    have "r0 ! nat (f g + ?tk) = piece0 ! nat (f g + ?tk)" using sw1 [OF g(1)] sw2 [OF g(1)] by simp
    then show ?thesis unfolding g(2) [symmetric] by simp
  next
    case False
    have "r0 ! nat (int k) = piece0 ! nat (int k)" using k10 [OF _ False] k20 [OF _ False] by simp
    then show ?thesis by simp
  qed
  then have e0: "r0 = piece0" using len1 len2 by (intro nth_equalityI) simp_all
  have "r1 ! k = piece1 ! k" for k
  proof (cases "int k \<in> f ` set gs")
    case True
    then obtain g where g: "g \<in> set gs" "int k = f g" by auto
    have "r1 ! nat (f g) = piece1 ! nat (f g)" using sw1 [OF g(1)] sw2 [OF g(1)] by simp
    then show ?thesis unfolding g(2) [symmetric] by simp
  next
    case False
    have "r1 ! nat (int k) = piece1 ! nat (int k)" using k11 [OF _ False] k21 [OF _ False] by simp
    then show ?thesis by simp
  qed
  then have e1: "r1 = piece1" using len1 len2 by (intro nth_equalityI) simp_all
  show ?thesis using run1 run2 e0 e1 by simp
qed

text \<open>
  Claim C5. For \<open>0 \<le> new_global < nqubits\<close> and any two pieces: whenever a call returns
  (every access it makes lies inside its buffer), a second call with the same
  \<open>new_global\<close> on the pieces it returned gives back both pieces with their original
  contents; and a call returns whenever both buffers hold the \<open>2 ^ nqubits\<close> amplitudes the
  loop addresses.
\<close>
theorem SwapPieces_twice_restores:
  assumes "0 \<le> new_global" and "new_global < nqubits"
  shows "(2 ^ nat nqubits \<le> length piece0 \<and> 2 ^ nat nqubits \<le> length piece1 \<longrightarrow>
            (\<exists>q0 q1. SwapPiecesFunctor piece0 piece1 new_global nqubits = Some (q0, q1)))
       \<and> (\<forall>q0 q1. SwapPiecesFunctor piece0 piece1 new_global nqubits = Some (q0, q1) \<longrightarrow>
            SwapPiecesFunctor q0 q1 new_global nqubits = Some (piece0, piece1))"
proof (intro conjI impI allI)
  assume "2 ^ nat nqubits \<le> length piece0 \<and> 2 ^ nat nqubits \<le> length piece1"
  then have l: "2 ^ nat nqubits \<le> length piece0" "2 ^ nat nqubits \<le> length piece1" by simp_all
  from SwapPieces_twice [OF assms SwapPieces_long_in_range [OF assms l]]
  show "\<exists>q0 q1. SwapPiecesFunctor piece0 piece1 new_global nqubits = Some (q0, q1)" by blast
next
  fix q0 q1
  assume run: "SwapPiecesFunctor piece0 piece1 new_global nqubits = Some (q0, q1)"
  from SwapPieces_twice [OF assms SwapPieces_Some_in_range [OF assms run]] run
  show "SwapPiecesFunctor q0 q1 new_global nqubits = Some (piece0, piece1)" by auto
qed

theorem SwapPieces_twice_restores_witness:
  "SwapPiecesFunctor [1, 2, 3, 4 :: complex] [5, 6, 7, 8] 1 2 = Some ([1, 5, 3, 7], [2, 6, 4, 8])
   \<and> SwapPiecesFunctor [1, 5, 3, 7 :: complex] [2, 6, 4, 8] 1 2 = Some ([1, 2, 3, 4], [5, 6, 7, 8])"
proof -
  have h: "(0::int) \<le> 1" "(1::int) < 2" by simp_all
  have run: "SwapPiecesFunctor [1, 2, 3, 4 :: complex] [5, 6, 7, 8] 1 2
             = Some ([1, 5, 3, 7], [2, 6, 4, 8])"
    by (simp add: SwapPiecesFunctor_def shl1_def swap_index_def swap_entries_def in_range_def
          upto.simps)
  from SwapPieces_twice_restores [OF h, of "[1, 2, 3, 4 :: complex]" "[5, 6, 7, 8]"] run
  show ?thesis by blast
qed

section \<open>TransposeState\<close>

lemma fill_loop:
  assumes "\<forall>q\<in>set qs. 0 \<le> q \<and> (\<forall>s. length s = L \<longrightarrow> body q s = Some (s[nat q := E q]))"
      and "length s0 = L"
  shows "\<exists>s'. for_loop qs body s0 = Some s' \<and> length s' = L
           \<and> (\<forall>j<L. s' ! j = (if int j \<in> set qs then E (int j) else s0 ! j))"
  using assms
proof (induction qs arbitrary: s0)
  case Nil
  then show ?case by simp
next
  case (Cons q qs)
  let ?s1 = "s0[nat q := E q]"
  have step: "body q s0 = Some ?s1" and q0: "0 \<le> q" using Cons.prems by auto
  have l1: "length ?s1 = L" using Cons.prems(2) by simp
  from Cons.IH [OF _ l1] Cons.prems(1) obtain s' where
    run: "for_loop qs body ?s1 = Some s'" and len: "length s' = L"
    and pt: "\<forall>j<L. s' ! j = (if int j \<in> set qs then E (int j) else ?s1 ! j)"
    by auto
  have "s' ! j = (if int j \<in> set (q # qs) then E (int j) else s0 ! j)" if j: "j < L" for j
  proof (cases "int j \<in> set qs")
    case True
    then show ?thesis using pt j by simp
  next
    case False
    show ?thesis
    proof (cases "int j = q")
      case True
      then have "nat q = j" by simp
      then show ?thesis using pt j False True Cons.prems(2) by simp
    next
      case ne: False
      then have "nat q \<noteq> j" using q0 by auto
      then show ?thesis using pt j False ne by simp
    qed
  qed
  then show ?case using step run len by simp
qed

lemma sum_exp_bits:
  assumes "distinct (map e qs)"
  shows "0 \<le> (\<Sum>q\<leftarrow>qs. (2::int) ^ e q)
       \<and> (\<forall>p. bit (\<Sum>q\<leftarrow>qs. (2::int) ^ e q) p \<longleftrightarrow> p \<in> e ` set qs)"
  using assms
proof (induction qs)
  case Nil
  then show ?case by simp
next
  case (Cons q qs)
  let ?M = "\<Sum>q\<leftarrow>qs. (2::int) ^ e q"
  from Cons have IH: "0 \<le> ?M" "\<And>p. bit ?M p \<longleftrightarrow> p \<in> e ` set qs" by auto
  have nb: "\<not> bit ?M (e q)" using IH Cons.prems by simp
  have "(\<Sum>q\<leftarrow>q # qs. (2::int) ^ e q) = ?M OR 2 ^ e q"
    using add_exp_eq_or [OF nb] by (simp add: add.commute)
  moreover have "0 \<le> ?M + 2 ^ e q" using IH by simp
  ultimately show ?case using IH by (auto simp: bit_or_iff bit_exp_iff add.commute)
qed

lemma fold_cond_add:
  "fold (\<lambda>q k. if P q then k + w q else k) qs (k0::int) = k0 + (\<Sum>q\<leftarrow>qs. if P q then w q else 0)"
  by (induction qs arbitrary: k0) simp_all

lemma source_index_loop_eq:
  assumes "\<forall>q\<in>set [0..n - 1]. qe ! nat q = 2 ^ nat (n - qo ! nat (n - q - 1) - 1)"
  shows "source_index_loop n qe g = source_index n qo g"
proof -
  have "source_index_loop n qe g
        = (\<Sum>q\<leftarrow>[0..n - 1]. if odd (g div 2 ^ nat q) then qe ! nat q else 0)"
    by (simp add: source_index_loop_def fold_cond_add drop_bit_eq_div odd_iff_mod_2_eq_one)
  also have "\<dots> = source_index n qo g"
    unfolding source_index_def using assms by (intro arg_cong [where f = sum_list] map_cong) auto
  finally show ?thesis .
qed

lemma exponent_inj:
  assumes "0 \<le> n" "length qo = nat n" "distinct qo" "\<forall>v\<in>set qo. 0 \<le> v \<and> v < n"
  shows "inj_on (\<lambda>q. nat (n - qo ! nat (n - q - 1) - 1)) (set [0..n - 1])"
proof (rule inj_onI)
  fix q q' assume q: "q \<in> set [0..n - 1]" and q': "q' \<in> set [0..n - 1]"
    and e: "nat (n - qo ! nat (n - q - 1) - 1) = nat (n - qo ! nat (n - q' - 1) - 1)"
  have i: "nat (n - q - 1) < length qo" "nat (n - q' - 1) < length qo"
    using q q' assms(2) by auto
  then have "qo ! nat (n - q - 1) \<in> set qo" "qo ! nat (n - q' - 1) \<in> set qo" by simp_all
  with assms(4) have "qo ! nat (n - q - 1) < n" "qo ! nat (n - q' - 1) < n" by blast+
  with e have "qo ! nat (n - q - 1) = qo ! nat (n - q' - 1)" by linarith
  with assms(3) i have "nat (n - q - 1) = nat (n - q' - 1)" by (simp add: nth_eq_iff_index_eq)
  then show "q = q'" using q q' by auto
qed

lemma source_index_bits:
  assumes "0 \<le> n" "length qo = nat n" "distinct qo" "\<forall>v\<in>set qo. 0 \<le> v \<and> v < n"
  shows "0 \<le> source_index n qo g"
    and "bit (source_index n qo g) p
         \<longleftrightarrow> (\<exists>q\<in>set [0..n - 1]. bit g (nat q) \<and> p = nat (n - qo ! nat (n - q - 1) - 1))"
proof -
  let ?e = "\<lambda>q. nat (n - qo ! nat (n - q - 1) - 1)"
  let ?qs = "filter (\<lambda>q. bit g (nat q)) [0..n - 1]"
  have s: "source_index n qo g = (\<Sum>q\<leftarrow>?qs. 2 ^ ?e q)"
    by (simp add: source_index_def sum_list_map_filter' bit_iff_odd)
  have "inj_on ?e (set ?qs)"
    by (rule inj_on_subset [OF exponent_inj [OF assms]]) auto
  then have d: "distinct (map ?e ?qs)" by (simp add: distinct_map)
  note b = sum_exp_bits [OF d]
  show "0 \<le> source_index n qo g" unfolding s using b by blast
  show "bit (source_index n qo g) p
         \<longleftrightarrow> (\<exists>q\<in>set [0..n - 1]. bit g (nat q) \<and> p = nat (n - qo ! nat (n - q - 1) - 1))"
    unfolding s using b by auto
qed

lemma source_index_less:
  assumes "0 \<le> n" "length qo = nat n" "distinct qo" "\<forall>v\<in>set qo. 0 \<le> v \<and> v < n"
  shows "source_index n qo g < 2 ^ nat n"
proof (rule int_less_exp_if_bits)
  show "0 \<le> source_index n qo g" by (rule source_index_bits(1) [OF assms])
next
  fix p assume "bit (source_index n qo g) p"
  then obtain q where q: "q \<in> set [0..n - 1]" "p = nat (n - qo ! nat (n - q - 1) - 1)"
    unfolding source_index_bits(2) [OF assms] by blast
  have "nat (n - q - 1) < length qo" using q(1) assms(2) by auto
  then have "qo ! nat (n - q - 1) \<in> set qo" by simp
  with assms(4) have "0 \<le> qo ! nat (n - q - 1)" by blast
  then show "p < nat n" unfolding q(2) using assms(1) q(1) by auto
qed

lemma source_index_qubits:
  assumes "0 \<le> n" "length qo = nat n" "distinct qo" "\<forall>v\<in>set qo. 0 \<le> v \<and> v < n"
      and "p \<in> set [0..n - 1]"
  shows "qubit_bit n p g = qubit_bit n (qo ! nat p) (source_index n qo g)"
proof -
  let ?e = "\<lambda>q. nat (n - qo ! nat (n - q - 1) - 1)"
  define q where "q = n - p - 1"
  have q: "q \<in> set [0..n - 1]" "nat (n - q - 1) = nat p" "nat q = nat (n - p - 1)"
    using assms(5) by (auto simp: q_def)
  have "bit (source_index n qo g) (?e q) \<longleftrightarrow> bit g (nat q)"
  proof
    assume "bit (source_index n qo g) (?e q)"
    then obtain q' where q': "q' \<in> set [0..n - 1]" "bit g (nat q')" "?e q = ?e q'"
      unfolding source_index_bits(2) [OF assms(1-4)] by blast
    from exponent_inj [OF assms(1-4)] q(1) q'(1,3) have "q = q'" by (auto dest: inj_onD)
    with q'(2) show "bit g (nat q)" by simp
  next
    assume "bit g (nat q)"
    then show "bit (source_index n qo g) (?e q)"
      unfolding source_index_bits(2) [OF assms(1-4)] using q(1) by blast
  qed
  then show ?thesis by (simp add: qubit_bit_iff q)
qed

lemma sdiv_pos: "0 \<le> a \<Longrightarrow> 0 < b \<Longrightarrow> a sdiv b = a div (b::int)"
  by (cases "a = 0") (simp_all add: signed_divide_int_def)

lemma smod_pos: "0 \<le> a \<Longrightarrow> 0 < b \<Longrightarrow> a smod b = a mod (b::int)"
  by (simp add: smod_mod_positive)

lemma exponent_loop:
  assumes "0 \<le> n" "length qo = nat n" "\<forall>v\<in>set qo. 0 \<le> v \<and> v < n"
  shows "\<exists>qe. for_loop [0..n - 1] (exponent_body n qo) (replicate (nat n) 0) = Some qe
           \<and> (\<forall>q\<in>set [0..n - 1]. qe ! nat q = 2 ^ nat (n - qo ! nat (n - q - 1) - 1))"
proof -
  let ?E = "\<lambda>q. (2::int) ^ nat (n - qo ! nat (n - q - 1) - 1)"
  have b: "0 \<le> q \<and> (\<forall>s. length s = nat n \<longrightarrow> exponent_body n qo q s = Some (s[nat q := ?E q]))"
    if q: "q \<in> set [0..n - 1]" for q
  proof -
    have r: "in_range qo (n - q - 1)" using q assms(2) by (auto simp: in_range_def)
    have "nat (n - q - 1) < length qo" using q assms(2) by auto
    then have "qo ! nat (n - q - 1) \<in> set qo" by (rule nth_mem)
    with assms(3) have "qo ! nat (n - q - 1) < n" by blast
    then have "shl1 (n - qo ! nat (n - q - 1) - 1) = Some (?E q)" by (simp add: shl1_nonneg)
    with r q show ?thesis by (simp add: exponent_body_def)
  qed
  from fill_loop [of "[0..n - 1]" "nat n" "exponent_body n qo" ?E "replicate (nat n) 0"] b
  obtain qe where run: "for_loop [0..n - 1] (exponent_body n qo) (replicate (nat n) 0) = Some qe"
    and pt: "\<forall>j<nat n. qe ! j = (if int j \<in> set [0..n - 1] then ?E (int j) else replicate (nat n) 0 ! j)"
    by auto
  have "qe ! nat q = ?E q" if q: "q \<in> set [0..n - 1]" for q
  proof -
    from q have "nat q < nat n" "int (nat q) = q" by auto
    with pt q show ?thesis by (metis (no_types, lifting))
  qed
  with run show ?thesis by blast
qed

text \<open>
  Claim C2. For \<open>ndevices\<close> pieces of length \<open>npiece = 2 ^ nqubits / ndevices\<close> each, with
  \<open>ndevices\<close> dividing \<open>2 ^ nqubits\<close>, a qubit order that is a permutation of
  \<open>0, \<dots>, nqubits - 1\<close> and a destination of length \<open>2 ^ nqubits\<close>: the call returns, and
  for every \<open>g\<close> below \<open>2 ^ nqubits\<close> the destination holds at \<open>g\<close> the amplitude
  \<open>state[k / npiece][k % npiece]\<close>, where \<open>k\<close> is the sum of the weights
  \<open>2 ^ (nqubits - qubit_order[nqubits - q - 1] - 1)\<close> over the bits \<open>q\<close> set in \<open>g\<close>. This
  \<open>k\<close> lies below \<open>2 ^ nqubits\<close>, and the qubit at position \<open>p\<close> of the new order has in
  \<open>g\<close> the value that qubit \<open>qubit_order[p]\<close> has in \<open>k\<close>: the amplitude copied to \<open>g\<close> is
  the one whose index under the new order is \<open>g\<close>.
\<close>
theorem TransposeState_gathers:
  assumes "0 \<le> nqubits"
      and "0 < ndevices" and "ndevices dvd 2 ^ nat nqubits"
      and "length state = nat ndevices"
      and "\<forall>piece\<in>set state. int (length piece) = 2 ^ nat nqubits div ndevices"
      and "length qubit_order = nat nqubits" and "distinct qubit_order"
      and "\<forall>v\<in>set qubit_order. 0 \<le> v \<and> v < nqubits"
      and "length transposed_state = 2 ^ nat nqubits"
  shows "\<exists>out. TransposeStateFunctor state transposed_state nqubits ndevices qubit_order = Some out
           \<and> length out = 2 ^ nat nqubits
           \<and> (\<forall>g. 0 \<le> g \<and> g < 2 ^ nat nqubits \<longrightarrow>
                (let k = source_index nqubits qubit_order g;
                     npiece = 2 ^ nat nqubits div ndevices
                 in 0 \<le> k \<and> k < 2 ^ nat nqubits
                    \<and> out ! nat g = state ! nat (k div npiece) ! nat (k mod npiece)
                    \<and> (\<forall>p\<in>set [0..nqubits - 1].
                          qubit_bit nqubits p g = qubit_bit nqubits (qubit_order ! nat p) k)))"
proof -
  let ?N = "(2::int) ^ nat nqubits"
  define npiece where "npiece = ?N div ndevices"
  let ?k = "source_index nqubits qubit_order"
  let ?V = "\<lambda>g. state ! nat (?k g div npiece) ! nat (?k g mod npiece)"
  note qo = assms(1,6,7,8)
  have N: "?N = ndevices * npiece" unfolding npiece_def using assms(3) by simp
  have np: "0 < npiece"
  proof (rule ccontr)
    assume "\<not> 0 < npiece"
    then have "ndevices * npiece \<le> 0" using assms(2) by (simp add: mult_le_0_iff)
    then show False using N by (smt (verit) zero_less_power)
  qed
  have sd: "?N sdiv ndevices = npiece" unfolding npiece_def by (rule sdiv_pos) (use assms(2) in simp_all)
  from exponent_loop [OF assms(1,6,8)] obtain qe where
    qe: "for_loop [0..nqubits - 1] (exponent_body nqubits qubit_order) (replicate (nat nqubits) 0) = Some qe"
    and qev: "\<forall>q\<in>set [0..nqubits - 1]. qe ! nat q = 2 ^ nat (nqubits - qubit_order ! nat (nqubits - q - 1) - 1)"
    by blast
  have kk: "source_index_loop nqubits qe g = ?k g" for g
    by (rule source_index_loop_eq [OF qev])
  have k0: "0 \<le> ?k g" for g by (rule source_index_bits(1) [OF qo])
  have kN: "?k g < ?N" for g by (rule source_index_less [OF qo])
  have kd: "0 \<le> ?k g div npiece" "?k g div npiece < ndevices"
           "0 \<le> ?k g mod npiece" "?k g mod npiece < npiece" for g
  proof -
    show "0 \<le> ?k g div npiece" using k0 np by (simp add: pos_imp_zdiv_nonneg_iff)
    show "?k g div npiece < ndevices"
    proof (rule ccontr)
      assume "\<not> ?k g div npiece < ndevices"
      then have "npiece * ndevices \<le> npiece * (?k g div npiece)"
        using np by (intro mult_left_mono) simp_all
      moreover have "npiece * (?k g div npiece) \<le> ?k g"
        using np by (metis mult_div_mod_eq le_add_same_cancel1 pos_mod_sign)
      ultimately show False using kN [of g] unfolding N by (simp add: mult.commute)
    qed
    show "0 \<le> ?k g mod npiece" "?k g mod npiece < npiece" using np by simp_all
  qed
  have L: "length transposed_state = nat ?N" using assms(9) by simp
  have b: "0 \<le> g \<and> (\<forall>t. length t = nat ?N \<longrightarrow>
             transpose_body state nqubits npiece qe g t = Some (t[nat g := ?V g]))"
    if g: "g \<in> set [0..?N - 1]" for g
  proof -
    have r1: "in_range state (?k g div npiece)"
      using kd(1,2) [of g] assms(4) by (simp add: in_range_def)
    have "nat (?k g div npiece) < length state"
      using kd(1,2) [of g] assms(4) by simp
    then have "state ! nat (?k g div npiece) \<in> set state" by (rule nth_mem)
    with assms(5) have "int (length (state ! nat (?k g div npiece))) = npiece"
      unfolding npiece_def by blast
    then have r2: "in_range (state ! nat (?k g div npiece)) (?k g mod npiece)"
      using kd(3,4) [of g] by (simp add: in_range_def)
    have r3: "in_range t g" if "length t = nat ?N" for t
      using g that by (simp add: in_range_def)
    have "transpose_body state nqubits npiece qe g t = Some (t[nat g := ?V g])"
      if "length t = nat ?N" for t
      using np r1 r2 r3 [OF that]
      by (simp add: transpose_body_def kk Let_def sdiv_pos [OF k0 np] smod_pos [OF k0 np])
    then show ?thesis using g by simp
  qed
  from fill_loop [of "[0..?N - 1]" "nat ?N" "transpose_body state nqubits npiece qe" ?V
         transposed_state] b L
  obtain out where run: "for_loop [0..?N - 1] (transpose_body state nqubits npiece qe)
                           transposed_state = Some out"
    and len: "length out = nat ?N"
    and pt: "\<forall>j<nat ?N. out ! j = (if int j \<in> set [0..?N - 1] then ?V (int j)
                                    else transposed_state ! j)"
    by auto
  have res: "TransposeStateFunctor state transposed_state nqubits ndevices qubit_order = Some out"
    using assms(1,2) by (simp add: TransposeStateFunctor_def shl1_nonneg sd qe run)
  have "out ! nat g = ?V g" if g: "0 \<le> g" "g < ?N" for g
  proof -
    from g have "nat g < nat ?N" "int (nat g) = g" "g \<in> set [0..?N - 1]" by auto
    with pt show ?thesis by (metis (no_types, lifting))
  qed
  moreover have "\<forall>p\<in>set [0..nqubits - 1].
      qubit_bit nqubits p g = qubit_bit nqubits (qubit_order ! nat p) (?k g)" for g
    using source_index_qubits [OF qo] by blast
  moreover have "length out = 2 ^ nat nqubits" using len by simp
  ultimately show ?thesis
    using res k0 kN unfolding Let_def npiece_def [symmetric] by blast
qed

theorem TransposeState_gathers_witness:
  "\<exists>out. TransposeStateFunctor [[10, 11], [12, 13 :: complex]] [0, 0, 0, 0] 2 2 [1, 0] = Some out
     \<and> length out = 4 \<and> out ! 1 = 12 \<and> out ! 2 = 11"
proof -
  have h: "(0::int) \<le> 2" "(0::int) < 2" "(2::int) dvd 2 ^ nat 2"
    "length [[10, 11], [12, 13 :: complex]] = nat 2"
    "\<forall>piece\<in>set [[10, 11], [12, 13 :: complex]]. int (length piece) = 2 ^ nat 2 div 2"
    "length [1, 0 :: int] = nat 2" "distinct [1, 0 :: int]"
    "\<forall>v\<in>set [1, 0 :: int]. 0 \<le> v \<and> v < 2"
    "length [0, 0, 0, 0 :: complex] = 2 ^ nat 2"
    by simp_all
  have k: "source_index 2 [1, 0] 1 = 2" "source_index 2 [1, 0] 2 = 1" by code_simp+
  from TransposeState_gathers [OF h] obtain out where
    run: "TransposeStateFunctor [[10, 11], [12, 13 :: complex]] [0, 0, 0, 0] 2 2 [1, 0] = Some out"
    and len: "length out = 2 ^ nat 2"
    and pt: "\<And>g. 0 \<le> g \<Longrightarrow> g < 2 ^ nat 2 \<Longrightarrow>
               out ! nat g = [[10, 11], [12, 13]] ! nat (source_index 2 [1, 0] g div (2 ^ nat 2 div 2))
                               ! nat (source_index 2 [1, 0] g mod (2 ^ nat 2 div 2))"
    unfolding Let_def by blast
  have "out ! 1 = 12" using pt [of 1] by (simp add: k)
  moreover have "out ! 2 = 11" using pt [of 2] by (simp add: k)
  ultimately show ?thesis using run len by simp
qed

section \<open>The device guard of the operators\<close>

text \<open>
  Claim C9. On the GPU device each of the three operators ends with the status
  "unimplemented" before its functor is called: whatever the functor for that device
  is, the input buffers are as they were and no output is set.
\<close>
theorem GPU_device_unimplemented:
  "ApplyGateOp_Compute gpu_apply GPUDevice state gate nqubits target controls
     = Some \<lparr>op_status = Unimplemented ''ApplyGate operator not implemented for GPU.'',
             buffers = state, outputs = None\<rparr>
   \<and> TransposeStateOp_Compute gpu_transpose GPUDevice pieces transposed_state nqubits ndevices qubit_order
     = Some \<lparr>op_status = Unimplemented ''TransposeStateOp operator not implemented for GPU.'',
             buffers = (pieces, transposed_state), outputs = None\<rparr>
   \<and> SwapPiecesOp_Compute gpu_swap GPUDevice piece0 piece1 new_global nqubits
     = Some \<lparr>op_status = Unimplemented ''SwapPiecesOp operator not implemented for GPU.'',
             buffers = (piece0, piece1), outputs = None\<rparr>"
  by (simp add: ApplyGateOp_Compute_def TransposeStateOp_Compute_def SwapPiecesOp_Compute_def)

theorem GPU_device_unimplemented_witness:
  "ApplyGateOp_Compute (\<lambda>s g n t c. Some (rev s)) GPUDevice [1, 0] (0, 1, 1, 0) 1 0 []
     = Some \<lparr>op_status = Unimplemented ''ApplyGate operator not implemented for GPU.'',
             buffers = [1, 0], outputs = None\<rparr>
   \<and> TransposeStateOp_Compute (\<lambda>s t n d q. Some (rev t)) GPUDevice [[1, 2 :: complex]] [3, 4] 1 1 [0]
     = Some \<lparr>op_status = Unimplemented ''TransposeStateOp operator not implemented for GPU.'',
             buffers = ([[1, 2]], [3, 4]), outputs = None\<rparr>
   \<and> SwapPiecesOp_Compute (\<lambda>a b g n. Some (b, a)) GPUDevice [1, 2 :: complex] [3, 4] 0 1
     = Some \<lparr>op_status = Unimplemented ''SwapPiecesOp operator not implemented for GPU.'',
             buffers = ([1, 2], [3, 4]), outputs = None\<rparr>"
  by (rule GPU_device_unimplemented)

text \<open>On the CPU device the same wrapper runs the functor and sets the output.\<close>

lemma CPU_device_runs:
  "ApplyGateOp_Compute gpu_apply CPUDevice [1, 0, 0, 0] (0, 1, 1, 0) 2 1 []
     = Some \<lparr>op_status = OK, buffers = [0, 1, 0, 0], outputs = Some [0, 1, 0, 0]\<rparr>"
  by (simp add: ApplyGateOp_Compute_def ApplyGateFunctor_def pow2_def ParallelFor_def
        fixed_blocks_def DoWork_def DoWork_body_def apply_pair_def in_range_def upto.simps)

section \<open>The scenarios of the specification\<close>

text \<open>Pauli-X on qubit 1 of two qubits, no controls.\<close>

lemma scenario_pauli_x:
  "ApplyGateFunctor [1, 0, 0, 0] (0, 1, 1, 0) 2 1 [] = Some [0, 1, 0, 0]"
  by (simp add: ApplyGateFunctor_def pow2_def ParallelFor_def fixed_blocks_def DoWork_def
        DoWork_body_def apply_pair_def in_range_def upto.simps)

text \<open>Pauli-X on qubit 2 of three qubits, controlled by qubit 0: index 6 moves to 7.\<close>

lemma scenario_controlled_x:
  "ApplyGateFunctor [0, 0, 0, 0, 0, 0, 1, 0] (0, 1, 1, 0) 3 2 [0]
     = Some [0, 0, 0, 0, 0, 0, 0, 1]"
  by code_simp

text \<open>The identity gate leaves a state as it is.\<close>

lemma scenario_identity_gate:
  "ApplyGateFunctor [1, 2, 3, 4] (1, 0, 0, 1) 2 0 [1] = Some [1, 2, 3, 4]"
  by code_simp

text \<open>Two pieces and the identity order: the pieces are concatenated.\<close>

lemma scenario_transpose_identity_order:
  "TransposeStateFunctor [[a, b], [c, d]] [x0, x1, x2, x3] 2 2 [0, 1] = Some [a, b, c, d]"
  by (simp add: TransposeStateFunctor_def shl1_def exponent_body_def transpose_body_def
        source_index_loop_def in_range_def upto.simps signed_divide_int_def
        signed_modulo_int_def)

text \<open>A swap of the only local qubit of two pieces of two amplitudes.\<close>

lemma scenario_swap:
  "SwapPiecesFunctor [a, b] [c, d] 0 1 = Some ([a, c], [b, d])"
  by (simp add: SwapPiecesFunctor_def shl1_def swap_index_def swap_entries_def in_range_def
        upto.simps)

end
